theory Spec2Isabelle
  imports Complex_Main "HOL-Library.Word"
begin

chapter \<open>The FBX document model: buffer codec, mesh assembler, skins, animation tracks\<close>

text \<open>
  A shallow embedding of the parts of \<^verbatim>\<open>fbx_document.cpp\<close> that decode and encode typed
  buffers, assemble mesh attributes, resolve skins and sample animation tracks.

  Conventions of the embedding:
  \<^item> the engine's \<^verbatim>\<open>double\<close>, \<^verbatim>\<open>float\<close> and \<^verbatim>\<open>real_t\<close> are the type \<^typ>\<open>real\<close>: rounding,
    infinities and NaN are outside the model;
  \<^item> \<^verbatim>\<open>int\<close> parameters are \<^typ>\<open>int\<close>; where the source does 32-bit arithmetic on sizes and
    offsets the wrap-around is written out (\<open>i32\<close>, \<open>u32\<close>);
  \<^item> the engine's \<^verbatim>\<open>Vector<T>\<close> is a list; its checked \<^verbatim>\<open>operator[]\<close> aborts the process
    on an index out of range (\<^verbatim>\<open>CRASH_BAD_INDEX\<close>), and a raw pointer access out of range is
    undefined: both are the result \<open>None\<close> of an \<open>option\<close>;
  \<^item> a function that returns an \<^verbatim>\<open>Error\<close> returns a value of the datatype \<open>Error\<close>.
\<close>

section \<open>Definitions\<close>

subsection \<open>Shared helpers\<close>

datatype Error = OK | FAILED | ERR_PARSE_ERROR | ERR_INVALID_DATA

text \<open>\<^verbatim>\<open>Vector<T>::operator[]\<close> with an \<^verbatim>\<open>int\<close> index: checked, no result out of range.\<close>

definition vget :: "'a list \<Rightarrow> int \<Rightarrow> 'a option" where
  "vget xs i = (if 0 \<le> i \<and> i < int (length xs) then Some (xs ! nat i) else None)"

text \<open>\<^verbatim>\<open>Vector<T>::find\<close>: the first index holding the value, \<open>-1\<close> when there is none.\<close>

fun find_from :: "int \<Rightarrow> 'a list \<Rightarrow> 'a \<Rightarrow> int" where
  "find_from i [] x = -1"
| "find_from i (y # ys) x = (if y = x then i else find_from (i + 1) ys x)"

definition vfind :: "'a list \<Rightarrow> 'a \<Rightarrow> int" where
  "vfind xs x = find_from 0 xs x"

text \<open>A \<^verbatim>\<open>for\<close> loop over a list of indices whose body can abort.\<close>

fun for_each :: "('a \<Rightarrow> 's \<Rightarrow> 's option) \<Rightarrow> 'a list \<Rightarrow> 's \<Rightarrow> 's option" where
  "for_each body [] s = Some s"
| "for_each body (x # xs) s = (case body x s of None \<Rightarrow> None | Some s' \<Rightarrow> for_each body xs s')"

subsection \<open>Mesh assembler: triangle winding and bone weights (\<^verbatim>\<open>_parse_meshes\<close>)\<close>

text \<open>
  The winding loop \<^verbatim>\<open>for (k = 0; k < is; k += 3) SWAP(w[k + 1], w[k + 2])\<close> works on the raw
  pointer of the index array: a last group of fewer than three indices is an access past the
  end.
\<close>

function swap_winding_from :: "nat \<Rightarrow> int list \<Rightarrow> int list option" where
  "swap_winding_from k w =
     (if k < length w then
        (if k + 2 < length w
         then swap_winding_from (k + 3) (w[k + 1 := w ! (k + 2), k + 2 := w ! (k + 1)])
         else None)
      else Some w)"
  by pat_completeness auto
termination
  by (relation "measure (\<lambda>(k, w). length w - k)") auto

definition swap_winding :: "int list \<Rightarrow> int list option" where
  "swap_winding w = swap_winding_from 0 w"

text \<open>
  The weight loops, for one set of weights (groups of 4) and for the merged pair (groups of
  8). \<^verbatim>\<open>total\<close> starts at 0 and adds the components in order.
\<close>

function normalize_weights_4_from :: "nat \<Rightarrow> real list \<Rightarrow> real list option" where
  "normalize_weights_4_from k w =
     (if k < length w then
        (if k + 3 < length w then
           (let total = 0 + w ! (k + 0) + w ! (k + 1) + w ! (k + 2) + w ! (k + 3) in
            normalize_weights_4_from (k + 4)
              (if total > 0
               then w[k + 0 := w ! (k + 0) / total, k + 1 := w ! (k + 1) / total,
                      k + 2 := w ! (k + 2) / total, k + 3 := w ! (k + 3) / total]
               else w))
         else None)
      else Some w)"
  by pat_completeness auto
termination
  by (relation "measure (\<lambda>(k, w). length w - k)") auto

function normalize_weights_8_from :: "nat \<Rightarrow> real list \<Rightarrow> real list option" where
  "normalize_weights_8_from k w =
     (if k < length w then
        (if k + 7 < length w then
           (let total = 0 + w ! (k + 0) + w ! (k + 1) + w ! (k + 2) + w ! (k + 3)
                          + w ! (k + 4) + w ! (k + 5) + w ! (k + 6) + w ! (k + 7) in
            normalize_weights_8_from (k + 8)
              (if total > 0
               then w[k + 0 := w ! (k + 0) / total, k + 1 := w ! (k + 1) / total,
                      k + 2 := w ! (k + 2) / total, k + 3 := w ! (k + 3) / total,
                      k + 4 := w ! (k + 4) / total, k + 5 := w ! (k + 5) / total,
                      k + 6 := w ! (k + 6) / total, k + 7 := w ! (k + 7) / total]
               else w))
         else None)
      else Some w)"
  by pat_completeness auto
termination
  by (relation "measure (\<lambda>(k, w). length w - k)") auto

text \<open>
  The merge of \<^verbatim>\<open>WEIGHTS_0\<close> and \<^verbatim>\<open>WEIGHTS_1\<close> into 8 weights per vertex. The reads of
  \<^verbatim>\<open>weights_0\<close> and \<^verbatim>\<open>weights_1\<close> are checked; the target has \<^verbatim>\<open>vertex_num * 8\<close> entries.
\<close>

function merge_weights_from ::
  "nat \<Rightarrow> nat \<Rightarrow> real list \<Rightarrow> real list \<Rightarrow> real list \<Rightarrow> real list option" where
  "merge_weights_from vertex_i vertex_num weights_0 weights_1 weights =
     (if vertex_i < vertex_num then
        (if vertex_i * 4 + 3 < length weights_0 \<and> vertex_i * 4 + 3 < length weights_1
            \<and> vertex_i * 8 + 7 < length weights
         then merge_weights_from (vertex_i + 1) vertex_num weights_0 weights_1
                (weights[vertex_i * 8 + 0 := weights_0 ! (vertex_i * 4 + 0),
                         vertex_i * 8 + 1 := weights_0 ! (vertex_i * 4 + 1),
                         vertex_i * 8 + 2 := weights_0 ! (vertex_i * 4 + 2),
                         vertex_i * 8 + 3 := weights_0 ! (vertex_i * 4 + 3),
                         vertex_i * 8 + 4 := weights_1 ! (vertex_i * 4 + 0),
                         vertex_i * 8 + 5 := weights_1 ! (vertex_i * 4 + 1),
                         vertex_i * 8 + 6 := weights_1 ! (vertex_i * 4 + 2),
                         vertex_i * 8 + 7 := weights_1 ! (vertex_i * 4 + 3)])
         else None)
      else Some weights)"
  by pat_completeness auto
termination
  by (relation "measure (\<lambda>(vertex_i, vertex_num, _). vertex_num - vertex_i)") auto

text \<open>
  The two branches of \<^verbatim>\<open>_parse_meshes\<close> that fill \<^verbatim>\<open>ARRAY_WEIGHTS\<close>: \<^verbatim>\<open>WEIGHTS_0\<close> alone, or
  \<^verbatim>\<open>WEIGHTS_0\<close> with \<^verbatim>\<open>WEIGHTS_1\<close> (\<^verbatim>\<open>ERR_INVALID_DATA\<close> when their sizes differ).
\<close>

definition parse_meshes_weights ::
  "nat \<Rightarrow> real list \<Rightarrow> real list option \<Rightarrow> (Error + real list) option" where
  "parse_meshes_weights vertex_num weights_0 weights_1_opt =
     (case weights_1_opt of
        None \<Rightarrow> map_option Inr (normalize_weights_4_from 0 weights_0)
      | Some weights_1 \<Rightarrow>
          if length weights_0 \<noteq> length weights_1 then Some (Inl ERR_INVALID_DATA)
          else (case merge_weights_from 0 vertex_num weights_0 weights_1
                       (replicate (vertex_num * 8) 0) of
                  None \<Rightarrow> None
                | Some weights \<Rightarrow> map_option Inr (normalize_weights_8_from 0 weights)))"

text \<open>
  For the proofs: the same passes by recursion on the list, one group at a time.
\<close>

fun swap_triples :: "'a list \<Rightarrow> 'a list option" where
  "swap_triples [] = Some []"
| "swap_triples (a # b # c # rest) = map_option (\<lambda>r. a # c # b # r) (swap_triples rest)"
| "swap_triples _ = None"

definition renorm_tuple :: "real list \<Rightarrow> real list" where
  "renorm_tuple t = (if sum_list t > 0 then map (\<lambda>x. x / sum_list t) t else t)"

function renorm_groups :: "nat \<Rightarrow> real list \<Rightarrow> real list option" where
  "renorm_groups g xs =
     (if g = 0 then None
      else if xs = [] then Some []
      else if length xs < g then None
      else map_option (\<lambda>r. renorm_tuple (take g xs) @ r) (renorm_groups g (drop g xs)))"
  by pat_completeness auto
termination
  by (relation "measure (\<lambda>(g, xs). length xs)") auto

subsection \<open>Animation tracks: \<^verbatim>\<open>_interpolate_track\<close> and the bake loop\<close>

datatype Interpolation =
  INTERP_LINEAR | INTERP_STEP | INTERP_CATMULLROMSPLINE | INTERP_CUBIC_SPLINE

text \<open>
  What a call of \<^verbatim>\<open>_interpolate_track\<close> does: it fails on an empty value array and returns
  \<^verbatim>\<open>T()\<close>; it reports that the values do not correspond to the times and returns
  \<^verbatim>\<open>p_values[0]\<close>; it reads \<^verbatim>\<open>p_values\<close> or \<^verbatim>\<open>p_times\<close> out of range, which aborts; or it
  samples the track.
\<close>

datatype 'a sampled = Empty_Values | Not_Corresponding 'a | Bad_Index | Sample 'a

text \<open>The interpolators of \<^verbatim>\<open>SceneFormatImporterGLTFInterpolate<T>\<close> (not the quaternion
  specialisation), on a real vector space.\<close>

definition lerp :: "'a::real_vector \<Rightarrow> 'a \<Rightarrow> real \<Rightarrow> 'a" where
  "lerp a b c = a + c *\<^sub>R (b - a)"

definition catmull_rom :: "'a::real_vector \<Rightarrow> 'a \<Rightarrow> 'a \<Rightarrow> 'a \<Rightarrow> real \<Rightarrow> 'a" where
  "catmull_rom p0 p1 p2 p3 t =
     (let t2 = t * t; t3 = t2 * t in
      0.5 *\<^sub>R (2 *\<^sub>R p1 + t *\<^sub>R (- p0 + p2)
               + t2 *\<^sub>R (2 *\<^sub>R p0 - 5 *\<^sub>R p1 + 4 *\<^sub>R p2 - p3)
               + t3 *\<^sub>R (- p0 + 3 *\<^sub>R p1 - 3 *\<^sub>R p2 + p3)))"

definition bezier :: "'a::real_vector \<Rightarrow> 'a \<Rightarrow> 'a \<Rightarrow> 'a \<Rightarrow> real \<Rightarrow> 'a" where
  "bezier start control_1 control_2 end' t =
     (let omt = 1 - t; omt2 = omt * omt; omt3 = omt2 * omt; t2 = t * t; t3 = t2 * t in
      omt3 *\<^sub>R start + (omt2 * t * 3) *\<^sub>R control_1 + (omt * t2 * 3) *\<^sub>R control_2
        + t3 *\<^sub>R end')"

text \<open>The linear scan for the key at or before \<^verbatim>\<open>p_time\<close>; \<open>idx\<close> starts at \<open>-1\<close>.\<close>

fun scan_idx :: "real list \<Rightarrow> real \<Rightarrow> int \<Rightarrow> int" where
  "scan_idx [] p_time idx = idx"
| "scan_idx (t # ts) p_time idx = (if t > p_time then idx else scan_idx ts p_time (idx + 1))"

text \<open>The test that decides whether the values are sampled: integer division by 3 for
  \<^verbatim>\<open>INTERP_CUBIC_SPLINE\<close>, by 1 for every other mode.\<close>

definition values_correspond :: "real list \<Rightarrow> 'a list \<Rightarrow> Interpolation \<Rightarrow> bool" where
  "values_correspond p_times p_values p_interp =
     (int (length p_times)
        = int (length p_values) div (if p_interp = INTERP_CUBIC_SPLINE then 3 else 1))"

definition sample_of :: "'a option \<Rightarrow> 'a sampled" where
  "sample_of r = (case r of None \<Rightarrow> Bad_Index | Some v \<Rightarrow> Sample v)"

definition interpolate_track ::
  "real list \<Rightarrow> ('a::real_vector) list \<Rightarrow> real \<Rightarrow> Interpolation \<Rightarrow> 'a sampled" where
  "interpolate_track p_times p_values p_time p_interp =
     (if length p_values = 0 then Empty_Values
      else if \<not> values_correspond p_times p_values p_interp
      then Not_Corresponding (p_values ! 0)
      else
        let idx = scan_idx p_times p_time (-1);
            size = int (length p_times);
            c = (p_time - p_times ! nat idx) / (p_times ! nat (idx + 1) - p_times ! nat idx)
        in case p_interp of
          INTERP_LINEAR \<Rightarrow>
            if idx = -1 then sample_of (vget p_values 0)
            else if idx \<ge> size - 1 then sample_of (vget p_values (size - 1))
            else sample_of (case (vget p_values idx, vget p_values (idx + 1)) of
                   (Some a, Some b) \<Rightarrow> Some (lerp a b c) | _ \<Rightarrow> None)
        | INTERP_STEP \<Rightarrow>
            if idx = -1 then sample_of (vget p_values 0)
            else if idx \<ge> size - 1 then sample_of (vget p_values (size - 1))
            else sample_of (vget p_values idx)
        | INTERP_CATMULLROMSPLINE \<Rightarrow>
            if idx = -1 then sample_of (vget p_values 1)
            else if idx \<ge> size - 1 then sample_of (vget p_values (1 + size - 1))
            else sample_of
                  (case (vget p_values (idx - 1), vget p_values idx, vget p_values (idx + 1),
                         vget p_values (idx + 3)) of
                     (Some p0, Some p1, Some p2, Some p3) \<Rightarrow> Some (catmull_rom p0 p1 p2 p3 c)
                   | _ \<Rightarrow> None)
        | INTERP_CUBIC_SPLINE \<Rightarrow>
            if idx = -1 then sample_of (vget p_values 1)
            else if idx \<ge> size - 1 then sample_of (vget p_values ((size - 1) * 3 + 1))
            else sample_of
                  (case (vget p_values (idx * 3 + 1), vget p_values (idx * 3 + 2),
                         vget p_values (idx * 3 + 4), vget p_values (idx * 3 + 3)) of
                     (Some from_v, Some out_tangent, Some to_v, Some in_tangent) \<Rightarrow>
                       Some (bezier from_v (from_v + out_tangent) (to_v + in_tangent) to_v c)
                   | _ \<Rightarrow> None))"

text \<open>
  The bake loop of \<^verbatim>\<open>_import_animation\<close>: it samples at \<^verbatim>\<open>time\<close>, stops after the sample
  taken with \<^verbatim>\<open>last\<close> set, and otherwise advances \<^verbatim>\<open>time\<close> by \<^verbatim>\<open>increment\<close>, clamping to
  \<^verbatim>\<open>anim_end\<close>. The result is the list of sample times; the first argument bounds the number
  of iterations, and \<open>None\<close> says that the bound was reached.
\<close>

fun bake_times :: "nat \<Rightarrow> real \<Rightarrow> real \<Rightarrow> real \<Rightarrow> bool \<Rightarrow> real list option" where
  "bake_times 0 increment anim_end time is_last = None"
| "bake_times (Suc n) increment anim_end time is_last =
     (if is_last then Some [time]
      else let time' = time + increment in
           if time' \<ge> anim_end
           then map_option (\<lambda>ts. time # ts) (bake_times n increment anim_end anim_end True)
           else map_option (\<lambda>ts. time # ts) (bake_times n increment anim_end time' False))"

subsection \<open>Buffer codec: machine integers and component types\<close>

text \<open>32-bit arithmetic of the source on sizes and offsets: \<^verbatim>\<open>int\<close> and \<^verbatim>\<open>uint32_t\<close> results,
  wrapped into their range (signed overflow is undefined in C++; it wraps here).\<close>

definition i32 :: "int \<Rightarrow> int" where
  "i32 x = (x + 2 ^ 31) mod 2 ^ 32 - 2 ^ 31"

definition u32 :: "int \<Rightarrow> int" where
  "u32 x = x mod 2 ^ 32"

text \<open>The remainder \<^verbatim>\<open>a % b\<close> of C++: it has the sign of \<open>a\<close>.\<close>

definition c_rem :: "int \<Rightarrow> int \<Rightarrow> int" where
  "c_rem a b = sgn a * (\<bar>a\<bar> mod \<bar>b\<bar>)"

text \<open>The conversion of a \<^verbatim>\<open>double\<close> to an integer type: towards zero.\<close>

definition c_trunc :: "real \<Rightarrow> int" where
  "c_trunc d = (if d < 0 then \<lceil>d\<rceil> else \<lfloor>d\<rfloor>)"

type_synonym byte = "8 word"

text \<open>An integer in \<open>n\<close> bytes, least significant byte first (the layout \<^verbatim>\<open>memcpy\<close> and the
  pointer casts of the source see on the supported targets); a value out of range wraps.\<close>

fun le_bytes :: "nat \<Rightarrow> int \<Rightarrow> byte list" where
  "le_bytes 0 v = []"
| "le_bytes (Suc n) v = word_of_int v # le_bytes n (v div 256)"

fun le_uint :: "byte list \<Rightarrow> int" where
  "le_uint [] = 0"
| "le_uint (b # bs) = uint b + 256 * le_uint bs"

definition le_sint :: "byte list \<Rightarrow> int" where
  "le_sint bs = (let u = le_uint bs; m = 256 ^ length bs in if 2 * u \<ge> m then u - m else u)"

text \<open>
  The narrowing of a \<^verbatim>\<open>double\<close> to \<^verbatim>\<open>float\<close>: the IEEE 754 binary32 bit pattern of the
  nearest value, ties to even, overflow to infinity. \<open>x\<close> is the magnitude in units of the
  smallest subnormal; \<open>q\<close> counts the binades above the first normal one. A pattern of an
  infinity or a NaN has no real value; \<open>float32_value\<close> gives 0 for it.
\<close>

definition round_half_even :: "real \<Rightarrow> int" where
  "round_half_even x =
     (let f = \<lfloor>x\<rfloor>; r = x - of_int f in
      if r < 1 / 2 then f else if r > 1 / 2 then f + 1 else if even f then f else f + 1)"

fun binade :: "nat \<Rightarrow> real \<Rightarrow> nat \<Rightarrow> nat" where
  "binade 0 x q = q"
| "binade (Suc n) x q = (if x < 2 ^ (24 + q) then q else binade n x (q + 1))"

definition float32_bits :: "real \<Rightarrow> int" where
  "float32_bits d =
     (let x = \<bar>d\<bar> * 2 ^ 149;
          q = binade 254 x 0;
          mag = min (int q * 2 ^ 23 + round_half_even (x / 2 ^ q)) (255 * 2 ^ 23)
      in (if d < 0 then 2 ^ 31 else 0) + mag)"

definition float32_value :: "int \<Rightarrow> real" where
  "float32_value p =
     (let s = p div 2 ^ 31; m = p mod 2 ^ 31; e = m div 2 ^ 23; f = m mod 2 ^ 23;
          a = (if e = 255 then 0
               else if e = 0 then of_int f / 2 ^ 149
               else of_int (2 ^ 23 + f) * 2 ^ nat (e - 1) / 2 ^ 149)
      in if s = 1 then - a else a)"

datatype FBXType =
  TYPE_SCALAR | TYPE_VEC2 | TYPE_VEC3 | TYPE_VEC4 | TYPE_MAT2 | TYPE_MAT3 | TYPE_MAT4

text \<open>Modelled from the spec: the component type codes are declared in a header that is not
  under \<^verbatim>\<open>src/\<close>; the spec lists them as 5120, 5121, 5122, 5123, 5125 and 5126.\<close>

definition COMPONENT_TYPE_BYTE :: int where "COMPONENT_TYPE_BYTE = 5120"
definition COMPONENT_TYPE_UNSIGNED_BYTE :: int where "COMPONENT_TYPE_UNSIGNED_BYTE = 5121"
definition COMPONENT_TYPE_SHORT :: int where "COMPONENT_TYPE_SHORT = 5122"
definition COMPONENT_TYPE_UNSIGNED_SHORT :: int where "COMPONENT_TYPE_UNSIGNED_SHORT = 5123"
definition COMPONENT_TYPE_INT :: int where "COMPONENT_TYPE_INT = 5125"
definition COMPONENT_TYPE_FLOAT :: int where "COMPONENT_TYPE_FLOAT = 5126"

fun component_count_for_type :: "FBXType \<Rightarrow> int" where
  "component_count_for_type TYPE_SCALAR = 1"
| "component_count_for_type TYPE_VEC2 = 2"
| "component_count_for_type TYPE_VEC3 = 3"
| "component_count_for_type TYPE_VEC4 = 4"
| "component_count_for_type TYPE_MAT2 = 4"
| "component_count_for_type TYPE_MAT3 = 9"
| "component_count_for_type TYPE_MAT4 = 16"

definition get_component_type_size :: "int \<Rightarrow> int" where
  "get_component_type_size p_component_type =
     (if p_component_type = COMPONENT_TYPE_BYTE \<or> p_component_type = COMPONENT_TYPE_UNSIGNED_BYTE
      then 1
      else if p_component_type = COMPONENT_TYPE_SHORT
            \<or> p_component_type = COMPONENT_TYPE_UNSIGNED_SHORT
      then 2
      else if p_component_type = COMPONENT_TYPE_INT \<or> p_component_type = COMPONENT_TYPE_FLOAT
      then 4
      else 0)"

text \<open>
  The implicit conversion of a \<^verbatim>\<open>double\<close> to an integer type of \<open>n\<close> bytes with the range
  from \<open>lo\<close> to \<open>hi\<close>, as an assignment to an element of a typed buffer does it: the
  value is truncated towards zero; the conversion is undefined in C++ when the truncated
  value is not in the range of the type, which is the result \<open>None\<close>.
\<close>

definition narrow :: "nat \<Rightarrow> int \<Rightarrow> int \<Rightarrow> real \<Rightarrow> byte list option" where
  "narrow n lo hi x =
     (let v = c_trunc x in if lo \<le> v \<and> v \<le> hi then Some (le_bytes n v) else None)"

text \<open>One component written by \<^verbatim>\<open>_encode_buffer_view\<close>: the \<^verbatim>\<open>double\<close>, scaled when the
  accessor is normalized (not for \<^verbatim>\<open>int\<close> and \<^verbatim>\<open>float\<close>), converted to the element type of
  the typed buffer; given as the bytes the later \<^verbatim>\<open>memcpy\<close> copies.\<close>

definition encode_component :: "int \<Rightarrow> bool \<Rightarrow> real \<Rightarrow> byte list option" where
  "encode_component p_component_type p_normalized d =
     (if p_component_type = COMPONENT_TYPE_BYTE
      then narrow 1 (-128) 127 (if p_normalized then d * 128 else d)
      else if p_component_type = COMPONENT_TYPE_UNSIGNED_BYTE
      then narrow 1 0 255 (if p_normalized then d * 255 else d)
      else if p_component_type = COMPONENT_TYPE_SHORT
      then narrow 2 (-32768) 32767 (if p_normalized then d * 32768 else d)
      else if p_component_type = COMPONENT_TYPE_UNSIGNED_SHORT
      then narrow 2 0 65535 (if p_normalized then d * 65535 else d)
      else if p_component_type = COMPONENT_TYPE_INT
      then narrow 4 (-2147483648) 2147483647 d
      else if p_component_type = COMPONENT_TYPE_FLOAT
      then Some (le_bytes 4 (float32_bits d))
      else Some [])"

text \<open>One component read by \<^verbatim>\<open>_decode_buffer_view\<close> from the bytes at \<^verbatim>\<open>src\<close>; \<open>d\<close> stays 0
  for a component type outside the \<^verbatim>\<open>switch\<close>.\<close>

definition decode_component :: "int \<Rightarrow> bool \<Rightarrow> byte list \<Rightarrow> real" where
  "decode_component p_component_type p_normalized bs =
     (if p_component_type = COMPONENT_TYPE_BYTE
      then (if p_normalized then of_int (le_sint bs) / 128 else of_int (le_sint bs))
      else if p_component_type = COMPONENT_TYPE_UNSIGNED_BYTE
      then (if p_normalized then of_int (le_uint bs) / 255 else of_int (le_uint bs))
      else if p_component_type = COMPONENT_TYPE_SHORT
      then (if p_normalized then of_int (le_sint bs) / 32768 else of_int (le_sint bs))
      else if p_component_type = COMPONENT_TYPE_UNSIGNED_SHORT
      then (if p_normalized then of_int (le_uint bs) / 65535 else of_int (le_uint bs))
      else if p_component_type = COMPONENT_TYPE_INT
      then of_int (le_sint bs)
      else if p_component_type = COMPONENT_TYPE_FLOAT
      then float32_value (le_uint bs)
      else 0)"

subsection \<open>Buffer codec: the document state\<close>

text \<open>Modelled from the spec: the classes \<^verbatim>\<open>FBXBufferView\<close>, \<^verbatim>\<open>FBXAccessor\<close> and \<^verbatim>\<open>FBXState\<close>
  are declared in headers that are not under \<^verbatim>\<open>src/\<close>; the records hold the fields the codec
  reads and writes, the field \<^verbatim>\<open>f\<close> of a buffer view as \<open>bv_f\<close> and of an accessor as
  \<open>a_f\<close>. A fresh buffer view has \<^verbatim>\<open>byte_stride\<close> \<open>-1\<close>, the value the source tests for
  "no stride".\<close>

record FBXBufferView =
  bv_buffer :: int
  bv_byte_offset :: int
  bv_byte_length :: int
  bv_byte_stride :: int

record FBXAccessor =
  a_buffer_view :: int
  a_byte_offset :: int
  a_component_type :: int
  a_normalized :: bool
  a_count :: int
  a_type :: FBXType
  a_sparse_count :: int
  a_sparse_indices_buffer_view :: int
  a_sparse_indices_byte_offset :: int
  a_sparse_indices_component_type :: int
  a_sparse_values_buffer_view :: int
  a_sparse_values_byte_offset :: int

record FBXState =
  buffers :: "byte list list"
  buffer_views :: "FBXBufferView list"
  accessors :: "FBXAccessor list"

subsection \<open>Buffer codec: \<^verbatim>\<open>_encode_buffer_view\<close>\<close>

text \<open>The padding rule of the encoder: \<^verbatim>\<open>(skip_every, skip_bytes)\<close>.\<close>

definition encode_alignment :: "int \<Rightarrow> FBXType \<Rightarrow> nat \<times> nat" where
  "encode_alignment p_component_type p_type =
     (if p_component_type = COMPONENT_TYPE_BYTE \<or> p_component_type = COMPONENT_TYPE_UNSIGNED_BYTE
      then (if p_type = TYPE_MAT3 then (3, 1) else if p_type = TYPE_MAT2 then (2, 2) else (0, 0))
      else if p_component_type = COMPONENT_TYPE_SHORT
            \<or> p_component_type = COMPONENT_TYPE_UNSIGNED_SHORT
      then (if p_type = TYPE_MAT3 then (6, 4) else (0, 0))
      else (0, 0))"

text \<open>
  The body of the inner loop, the same in every case of the \<^verbatim>\<open>switch\<close>: \<^verbatim>\<open>dst_i\<close> skips,
  the next source value is read, and \<^verbatim>\<open>buffer.write[dst_i]\<close> stores it. The typed buffer is a
  list of elements, each given by its bytes; \<^verbatim>\<open>dst_i\<close> counts elements, and
  \<^verbatim>\<open>skip_bytes\<close> is added to it as it is.
\<close>

definition encode_step ::
  "int \<Rightarrow> bool \<Rightarrow> nat \<Rightarrow> nat \<Rightarrow> nat \<Rightarrow> nat \<times> byte list list \<times> real list
     \<Rightarrow> (nat \<times> byte list list \<times> real list) option" where
  "encode_step p_component_type p_normalized skip_every skip_bytes j st =
     (case st of (dst_i, buffer, p_src) \<Rightarrow>
        let dst_i' = (if skip_every \<noteq> 0 \<and> j > 0 \<and> j mod skip_every = 0
                      then dst_i + skip_bytes else dst_i)
        in case p_src of
             [] \<Rightarrow> None
           | d # p_src' \<Rightarrow>
               (case encode_component p_component_type p_normalized d of
                  None \<Rightarrow> None
                | Some element \<Rightarrow>
                    if dst_i' < length buffer
                    then Some (dst_i' + 1, buffer[dst_i' := element], p_src')
                    else None))"

definition encode_elements ::
  "int \<Rightarrow> bool \<Rightarrow> nat \<Rightarrow> nat \<Rightarrow> nat \<Rightarrow> nat \<Rightarrow> nat \<times> byte list list \<times> real list
     \<Rightarrow> (nat \<times> byte list list \<times> real list) option" where
  "encode_elements p_component_type p_normalized skip_every skip_bytes p_count component_count =
     for_each (\<lambda>i. for_each (encode_step p_component_type p_normalized skip_every skip_bytes)
                       [0..<component_count])
       [0..<p_count]"

text \<open>
  \<^verbatim>\<open>_encode_buffer_view\<close>. The result is \<open>None\<close> when the call aborts; otherwise the error
  code, the state (the main buffer has grown also when the later checks fail) and the index
  of the new view, which is assigned only on success. The typed buffer starts with
  \<^verbatim>\<open>p_count * component_count\<close> elements (zero here; the engine leaves them uninitialised).
\<close>

definition encode_buffer_view ::
  "FBXState \<Rightarrow> real list \<Rightarrow> int \<Rightarrow> FBXType \<Rightarrow> int \<Rightarrow> bool \<Rightarrow> int \<Rightarrow> bool
     \<Rightarrow> (Error \<times> FBXState \<times> int option) option" where
  "encode_buffer_view p_state p_src p_count p_type p_component_type p_normalized p_byte_offset
       p_for_vertex =
     (let component_count = component_count_for_type p_type;
          component_size = get_component_type_size p_component_type
      in if component_size = 0 then Some (FAILED, p_state, None)
      else
        case encode_alignment p_component_type p_type of (skip_every, skip_bytes) \<Rightarrow>
        let offset = u32 p_byte_offset in
        case buffers p_state of
          [] \<Rightarrow> None
        | gltf_buffer # other_buffers \<Rightarrow>
            let stride0 = get_component_type_size p_component_type;
                stride = (if p_for_vertex \<and> c_rem stride0 4 \<noteq> 0
                          then stride0 + (4 - c_rem stride0 4) else stride0);
                buffer_end = i32 (i32 (stride * i32 (p_count - 1))
                                  + get_component_type_size p_component_type);
                new_byte_offset = int (length gltf_buffer);
                buffer0 = replicate (nat (i32 (p_count * component_count)))
                            (replicate (nat component_size) (0 :: byte))
            in case encode_elements p_component_type p_normalized skip_every skip_bytes
                      (nat p_count) (nat component_count) (0, buffer0, p_src) of
                 None \<Rightarrow> None
               | Some (dst_i, buffer, p_src') \<Rightarrow>
                   let gltf_buffer' = gltf_buffer @ concat buffer;
                       new_byte_length = int (length buffer) * component_size;
                       state' = p_state\<lparr>buffers := gltf_buffer' # other_buffers\<rparr>
                   in if buffer_end > new_byte_length then Some (ERR_INVALID_DATA, state', None)
                      else if i32 (u32 (offset + buffer_end)) > int (length gltf_buffer')
                      then Some (ERR_INVALID_DATA, state', None)
                      else
                        let r_accessor = int (length (buffer_views p_state));
                            bv = \<lparr>bv_buffer = r_accessor, bv_byte_offset = new_byte_offset,
                                  bv_byte_length = new_byte_length, bv_byte_stride = -1\<rparr>
                        in Some (OK, state'\<lparr>buffer_views := buffer_views p_state @ [bv]\<rparr>,
                                 Some r_accessor))"

subsection \<open>Buffer codec: \<^verbatim>\<open>_decode_buffer_view\<close> and \<^verbatim>\<open>_decode_accessor\<close>\<close>

text \<open>
  The body of the inner loop of the decoder: \<^verbatim>\<open>src\<close> skips, the component is read through
  a pointer cast (as many bytes as its type has), and \<^verbatim>\<open>src\<close> advances by
  \<^verbatim>\<open>p_component_size\<close>. \<^verbatim>\<open>src\<close> is the index into the buffer; a read outside the buffer is
  \<open>None\<close>. The values written through \<^verbatim>\<open>p_dst\<close> are collected in order.
\<close>

definition decode_step ::
  "byte list \<Rightarrow> int \<Rightarrow> bool \<Rightarrow> int \<Rightarrow> int \<Rightarrow> int \<Rightarrow> nat \<Rightarrow> int \<times> real list
     \<Rightarrow> (int \<times> real list) option" where
  "decode_step buffer p_component_type p_normalized p_skip_every p_skip_bytes p_component_size j st =
     (case st of (src, dst) \<Rightarrow>
        let src' = (if p_skip_every \<noteq> 0 \<and> j > 0 \<and> c_rem (int j) p_skip_every = 0
                    then src + p_skip_bytes else src);
            n = get_component_type_size p_component_type
        in if 0 \<le> src' \<and> src' + n \<le> int (length buffer)
           then Some (src' + p_component_size,
                      dst @ [decode_component p_component_type p_normalized
                               (take (nat n) (drop (nat src') buffer))])
           else None)"

definition decode_elements ::
  "byte list \<Rightarrow> int \<Rightarrow> bool \<Rightarrow> int \<Rightarrow> int \<Rightarrow> int \<Rightarrow> int \<Rightarrow> int \<Rightarrow> int \<Rightarrow> int
     \<Rightarrow> real list option" where
  "decode_elements buffer p_component_type p_normalized p_skip_every p_skip_bytes
       p_component_size offset stride p_count p_component_count =
     for_each
       (\<lambda>i dst. map_option snd
          (for_each (decode_step buffer p_component_type p_normalized p_skip_every p_skip_bytes
                       p_component_size)
             [0..<nat p_component_count] (u32 (offset + i32 (int i * stride)), dst)))
       [0..<nat p_count] []"

definition decode_stride :: "FBXBufferView \<Rightarrow> int \<Rightarrow> bool \<Rightarrow> int" where
  "decode_stride bv p_element_size p_for_vertex =
     (let stride = (if bv_byte_stride bv \<noteq> -1 then bv_byte_stride bv else p_element_size)
      in if p_for_vertex \<and> c_rem stride 4 \<noteq> 0 then i32 (stride + (4 - c_rem stride 4))
         else stride)"

text \<open>\<^verbatim>\<open>buffer_end\<close>: the span the elements need.\<close>

definition decode_buffer_end :: "int \<Rightarrow> int \<Rightarrow> int \<Rightarrow> int" where
  "decode_buffer_end stride p_count p_element_size =
     i32 (i32 (stride * i32 (p_count - 1)) + p_element_size)"

text \<open>
  \<^verbatim>\<open>_decode_buffer_view\<close>: \<open>None\<close> when the call aborts (the view index is not checked here)
  or reads outside the buffer; otherwise the error code and the values written to
  \<^verbatim>\<open>p_dst\<close>.
\<close>

definition decode_buffer_view ::
  "FBXState \<Rightarrow> int \<Rightarrow> int \<Rightarrow> int \<Rightarrow> int \<Rightarrow> int \<Rightarrow> FBXType \<Rightarrow> int \<Rightarrow> int \<Rightarrow> int \<Rightarrow> bool
     \<Rightarrow> int \<Rightarrow> bool \<Rightarrow> (Error \<times> real list) option" where
  "decode_buffer_view p_state p_buffer_view p_skip_every p_skip_bytes p_element_size p_count
       p_type p_component_count p_component_type p_component_size p_normalized p_byte_offset
       p_for_vertex =
     (case vget (buffer_views p_state) p_buffer_view of
        None \<Rightarrow> None
      | Some bv \<Rightarrow>
          let stride = decode_stride bv p_element_size p_for_vertex in
          if \<not> (0 \<le> bv_buffer bv \<and> bv_buffer bv < int (length (buffers p_state)))
          then Some (ERR_PARSE_ERROR, [])
          else
            let offset = u32 (i32 (bv_byte_offset bv + p_byte_offset));
                buffer = buffers p_state ! nat (bv_buffer bv);
                buffer_end = decode_buffer_end stride p_count p_element_size
            in if buffer_end > bv_byte_length bv then Some (ERR_PARSE_ERROR, [])
               else if i32 (u32 (offset + buffer_end)) > int (length buffer)
               then Some (ERR_PARSE_ERROR, [])
               else map_option (\<lambda>dst. (OK, dst))
                      (decode_elements buffer p_component_type p_normalized p_skip_every
                         p_skip_bytes p_component_size offset stride p_count p_component_count))"

text \<open>The padding rule of \<^verbatim>\<open>_decode_accessor\<close>, with the element size it overrides:
  \<^verbatim>\<open>(skip_every, skip_bytes, element_size)\<close>.\<close>

definition decode_alignment :: "int \<Rightarrow> FBXType \<Rightarrow> int \<Rightarrow> int \<times> int \<times> int" where
  "decode_alignment p_component_type p_type element_size =
     (if p_component_type = COMPONENT_TYPE_BYTE \<or> p_component_type = COMPONENT_TYPE_UNSIGNED_BYTE
      then (if p_type = TYPE_MAT3 then (3, 1, 12)
            else if p_type = TYPE_MAT2 then (2, 2, 8) else (0, 0, element_size))
      else if p_component_type = COMPONENT_TYPE_SHORT
            \<or> p_component_type = COMPONENT_TYPE_UNSIGNED_SHORT
      then (if p_type = TYPE_MAT3 then (6, 4, 16) else (0, 0, element_size))
      else (0, 0, element_size))"

text \<open>The sparse overwrite: \<^verbatim>\<open>dst[write_offset + j] = data[i * component_count + j]\<close>, with
  \<^verbatim>\<open>dst\<close> a raw pointer and \<^verbatim>\<open>data\<close> a checked vector. The conversion
  \<^verbatim>\<open>int(indices[i])\<close> is undefined when the truncated value is not an \<^verbatim>\<open>int\<close>.\<close>

definition sparse_write ::
  "real list \<Rightarrow> real list \<Rightarrow> int \<Rightarrow> nat \<Rightarrow> nat \<Rightarrow> real list \<Rightarrow> real list option" where
  "sparse_write indices data component_count i j dst =
     (let index = c_trunc (indices ! i) in
      if \<not> (-2147483648 \<le> index \<and> index \<le> 2147483647) then None
      else
        let write_offset = i32 (index * component_count);
            k = write_offset + int j
        in case vget data (int i * component_count + int j) of
             None \<Rightarrow> None
           | Some v \<Rightarrow> if 0 \<le> k \<and> k < int (length dst) then Some (dst[nat k := v]) else None)"

text \<open>
  \<^verbatim>\<open>_decode_accessor\<close>: the decoded values, the empty vector on every failure, \<open>None\<close> when
  the call aborts. The target vector is sized with the \<^verbatim>\<open>int\<close> product
  \<^verbatim>\<open>component_count * a->count\<close> (a negative size leaves it empty); the decoder writes to
  it through a raw pointer, so a decoded array of another length has left the vector, which
  is \<open>None\<close>. Without a buffer view the loop up to the same product fills it with zeros.
\<close>

definition decode_accessor :: "FBXState \<Rightarrow> int \<Rightarrow> bool \<Rightarrow> real list option" where
  "decode_accessor p_state p_accessor p_for_vertex =
     (if \<not> (0 \<le> p_accessor \<and> p_accessor < int (length (accessors p_state))) then Some []
      else
        let a = accessors p_state ! nat p_accessor;
            component_count = component_count_for_type (a_type a);
            component_size = get_component_type_size (a_component_type a)
        in if component_size = 0 then Some []
        else
          case decode_alignment (a_component_type a) (a_type a)
                 (component_count * component_size) of
            (skip_every, skip_bytes, element_size) \<Rightarrow>
          let base =
               (if a_buffer_view a \<ge> 0 then
                  (if \<not> a_buffer_view a < int (length (buffer_views p_state)) then Some (Inl ())
                   else case decode_buffer_view p_state (a_buffer_view a) skip_every skip_bytes
                               element_size (a_count a) (a_type a) component_count
                               (a_component_type a) component_size (a_normalized a)
                               (a_byte_offset a) p_for_vertex of
                          None \<Rightarrow> None
                        | Some (err, dst) \<Rightarrow>
                            if err \<noteq> OK then Some (Inl ())
                            else if length dst \<noteq> nat (i32 (component_count * a_count a))
                            then None
                            else Some (Inr dst))
                else Some (Inr (replicate (nat (i32 (a_count a * component_count))) 0)))
          in case base of
               None \<Rightarrow> None
             | Some (Inl _) \<Rightarrow> Some []
             | Some (Inr dst) \<Rightarrow>
                 if a_sparse_count a > 0 then
                   (let indices_component_size =
                          get_component_type_size (a_sparse_indices_component_type a)
                    in case decode_buffer_view p_state (a_sparse_indices_buffer_view a) 0 0
                              indices_component_size (a_sparse_count a) TYPE_SCALAR 1
                              (a_sparse_indices_component_type a) indices_component_size False
                              (a_sparse_indices_byte_offset a) False of
                         None \<Rightarrow> None
                       | Some (err, indices) \<Rightarrow>
                           if err \<noteq> OK then Some []
                           else
                             (case decode_buffer_view p_state (a_sparse_values_buffer_view a)
                                     skip_every skip_bytes element_size (a_sparse_count a)
                                     (a_type a) component_count (a_component_type a)
                                     component_size (a_normalized a) (a_sparse_values_byte_offset a)
                                     p_for_vertex of
                                None \<Rightarrow> None
                              | Some (err2, data) \<Rightarrow>
                                  if err2 \<noteq> OK then Some []
                                  else for_each
                                         (\<lambda>i. for_each (sparse_write indices data component_count i)
                                                  [0..<nat component_count])
                                         [0..<length indices] dst))
                 else Some dst)"

subsection \<open>Skins: nodes, skins and the disjoint set\<close>

text \<open>Modelled from the spec: the classes \<^verbatim>\<open>FBXNode\<close> and \<^verbatim>\<open>FBXSkin\<close> are declared in headers
  that are not under \<^verbatim>\<open>src/\<close>; the records hold the fields the skin functions read and write.
  The node array \<^verbatim>\<open>p_state->nodes\<close> is a list of nodes; a node index is an \<^verbatim>\<open>int\<close>, \<open>-1\<close> for
  "no parent".\<close>

record FBXNode =
  node_parent :: int
  node_height :: int
  node_children :: "int list"
  node_joint :: bool

record FBXSkin =
  skin_joints :: "int list"
  skin_non_joints :: "int list"
  skin_roots :: "int list"

text \<open>
  Modelled from the spec: the template \<^verbatim>\<open>DisjointSet\<close> is engine code that is not under
  \<^verbatim>\<open>src/\<close>; the spec asks for an index-based union-find with path compression. The model
  keeps the elements in insertion order, for every element the representative that a find
  returns (what the parent pointers compress to), and the rank of a representative. A union
  makes the representative of larger rank the representative of both sets, the one of the
  first argument when the ranks are equal.
\<close>

record DisjointSet =
  ds_elements :: "int list"
  ds_parent :: "int \<Rightarrow> int"
  ds_rank :: "int \<Rightarrow> nat"

definition ds_empty :: DisjointSet where
  "ds_empty = \<lparr>ds_elements = [], ds_parent = (\<lambda>x. x), ds_rank = (\<lambda>x. 0)\<rparr>"

definition ds_insert :: "DisjointSet \<Rightarrow> int \<Rightarrow> DisjointSet" where
  "ds_insert ds x =
     (if x \<in> set (ds_elements ds) then ds
      else \<lparr>ds_elements = ds_elements ds @ [x], ds_parent = (ds_parent ds)(x := x),
            ds_rank = (ds_rank ds)(x := 0)\<rparr>)"

definition create_union :: "DisjointSet \<Rightarrow> int \<Rightarrow> int \<Rightarrow> DisjointSet" where
  "create_union ds a b =
     (let ds1 = ds_insert (ds_insert ds a) b;
          x0 = ds_parent ds1 a;
          y0 = ds_parent ds1 b
      in if x0 = y0 then ds1
         else
           let x = (if ds_rank ds1 x0 < ds_rank ds1 y0 then y0 else x0);
               y = (if ds_rank ds1 x0 < ds_rank ds1 y0 then x0 else y0)
           in \<lparr>ds_elements = ds_elements ds1,
                ds_parent = (\<lambda>u. if ds_parent ds1 u = y then x else ds_parent ds1 u),
                ds_rank = (if ds_rank ds1 x = ds_rank ds1 y
                           then (ds_rank ds1)(x := ds_rank ds1 x + 1) else ds_rank ds1)\<rparr>)"

definition get_representatives :: "DisjointSet \<Rightarrow> int list" where
  "get_representatives ds = filter (\<lambda>x. ds_parent ds x = x) (ds_elements ds)"

definition get_members :: "DisjointSet \<Rightarrow> int \<Rightarrow> int list" where
  "get_members ds representative =
     (if representative \<in> set (ds_elements ds) \<and> ds_parent ds representative = representative
      then filter (\<lambda>x. ds_parent ds x = representative) (ds_elements ds)
      else [])"

subsection \<open>Skins: the functions of the source\<close>

text \<open>\<^verbatim>\<open>_find_highest_node\<close>: the first node of the subset with the least height; \<open>-1\<close> for
  an empty subset.\<close>

fun find_highest_loop :: "FBXNode list \<Rightarrow> int list \<Rightarrow> int \<Rightarrow> int \<Rightarrow> int option" where
  "find_highest_loop nodes [] highest best_node = Some best_node"
| "find_highest_loop nodes (node_i # rest) highest best_node =
     (case vget nodes node_i of
        None \<Rightarrow> None
      | Some node \<Rightarrow>
          if highest = -1 \<or> node_height node < highest
          then find_highest_loop nodes rest (node_height node) node_i
          else find_highest_loop nodes rest highest best_node)"

definition find_highest_node :: "FBXNode list \<Rightarrow> int list \<Rightarrow> int option" where
  "find_highest_node nodes p_subset = find_highest_loop nodes p_subset (-1) (-1)"

text \<open>
  The marking step that the source repeats in \<^verbatim>\<open>_capture_nodes_in_skin\<close> and twice in
  \<^verbatim>\<open>_capture_nodes_for_multirooted_skin\<close>: the node goes to \<^verbatim>\<open>joints\<close> when it is tagged
  as a joint and is not there, otherwise to \<^verbatim>\<open>non_joints\<close> when it is not there.
\<close>

definition mark_node :: "FBXNode \<Rightarrow> FBXSkin \<Rightarrow> int \<Rightarrow> FBXSkin" where
  "mark_node node p_skin index =
     (if node_joint node \<and> vfind (skin_joints p_skin) index < 0
      then p_skin\<lparr>skin_joints := skin_joints p_skin @ [index]\<rparr>
      else if vfind (skin_non_joints p_skin) index < 0
      then p_skin\<lparr>skin_non_joints := skin_non_joints p_skin @ [index]\<rparr>
      else p_skin)"

text \<open>
  \<^verbatim>\<open>_capture_nodes_in_skin\<close>, with the loop over the children. The first argument bounds
  the depth of the recursion; \<open>None\<close> says that the bound is exhausted or that a node index
  is out of range. The result is the skin and the returned flag.
\<close>

fun capture_nodes_in_skin :: "nat \<Rightarrow> FBXNode list \<Rightarrow> FBXSkin \<Rightarrow> int \<Rightarrow> (FBXSkin \<times> bool) option"
  and capture_children ::
    "nat \<Rightarrow> FBXNode list \<Rightarrow> FBXSkin \<Rightarrow> int list \<Rightarrow> bool \<Rightarrow> (FBXSkin \<times> bool) option" where
  "capture_nodes_in_skin 0 nodes p_skin p_node_index = None"
| "capture_nodes_in_skin (Suc fuel) nodes p_skin p_node_index =
     (case vget nodes p_node_index of
        None \<Rightarrow> None
      | Some node \<Rightarrow>
          (case capture_children fuel nodes p_skin (node_children node) False of
             None \<Rightarrow> None
           | Some (skin1, found_joint) \<Rightarrow>
               let skin2 = (if found_joint then mark_node node skin1 p_node_index else skin1)
               in Some (skin2, vfind (skin_joints skin2) p_node_index > 0)))"
| "capture_children fuel nodes p_skin [] found_joint = Some (p_skin, found_joint)"
| "capture_children fuel nodes p_skin (child # rest) found_joint =
     (case capture_nodes_in_skin fuel nodes p_skin child of
        None \<Rightarrow> None
      | Some (skin1, r) \<Rightarrow> capture_children fuel nodes skin1 rest (found_joint \<or> r))"

text \<open>
  The loop that inserts every node of a list and unites it with its parent when the parent
  is in the list: on \<^verbatim>\<open>joints\<close> in \<^verbatim>\<open>_capture_nodes_for_multirooted_skin\<close>, on
  \<^verbatim>\<open>all_skin_nodes\<close> in \<^verbatim>\<open>_expand_skin\<close> and \<^verbatim>\<open>_verify_skin\<close>.
\<close>

fun union_loop :: "FBXNode list \<Rightarrow> int list \<Rightarrow> int list \<Rightarrow> DisjointSet \<Rightarrow> DisjointSet option" where
  "union_loop nodes all [] disjoint_set = Some disjoint_set"
| "union_loop nodes all (node_index # rest) disjoint_set =
     (case vget nodes node_index of
        None \<Rightarrow> None
      | Some node \<Rightarrow>
          let parent = node_parent node;
              ds1 = ds_insert disjoint_set node_index;
              ds2 = (if vfind all parent \<ge> 0 then create_union ds1 parent node_index else ds1)
          in union_loop nodes all rest ds2)"

definition union_pass :: "FBXNode list \<Rightarrow> int list \<Rightarrow> DisjointSet option" where
  "union_pass nodes all = union_loop nodes all all ds_empty"

text \<open>The least height of the roots (\<^verbatim>\<open>maxHeight\<close> in the source).\<close>

fun max_height_loop :: "FBXNode list \<Rightarrow> int list \<Rightarrow> int \<Rightarrow> int option" where
  "max_height_loop nodes [] maxHeight = Some maxHeight"
| "max_height_loop nodes (root_index # rest) maxHeight =
     (case vget nodes root_index of
        None \<Rightarrow> None
      | Some node \<Rightarrow>
          if maxHeight = -1 \<or> node_height node < maxHeight
          then max_height_loop nodes rest (node_height node)
          else max_height_loop nodes rest maxHeight)"

text \<open>The \<^verbatim>\<open>while\<close> loop that takes one root up to \<^verbatim>\<open>maxHeight\<close>, marking every parent
  on the way; the result is the skin and the node that replaces the root.\<close>

fun climb_to_height ::
  "nat \<Rightarrow> FBXNode list \<Rightarrow> int \<Rightarrow> FBXSkin \<Rightarrow> int \<Rightarrow> (FBXSkin \<times> int) option" where
  "climb_to_height 0 nodes maxHeight p_skin current_node = None"
| "climb_to_height (Suc fuel) nodes maxHeight p_skin current_node =
     (case vget nodes current_node of
        None \<Rightarrow> None
      | Some node \<Rightarrow>
          if node_height node > maxHeight then
            (let parent = node_parent node in
             case vget nodes parent of
               None \<Rightarrow> None
             | Some parent_node \<Rightarrow>
                 climb_to_height fuel nodes maxHeight (mark_node parent_node p_skin parent) parent)
          else Some (p_skin, current_node))"

fun level_roots ::
  "nat \<Rightarrow> FBXNode list \<Rightarrow> int \<Rightarrow> FBXSkin \<Rightarrow> int list \<Rightarrow> (FBXSkin \<times> int list) option" where
  "level_roots fuel nodes maxHeight p_skin [] = Some (p_skin, [])"
| "level_roots fuel nodes maxHeight p_skin (root_index # rest) =
     (case climb_to_height fuel nodes maxHeight p_skin root_index of
        None \<Rightarrow> None
      | Some (skin1, current_node) \<Rightarrow>
          (case level_roots fuel nodes maxHeight skin1 rest of
             None \<Rightarrow> None
           | Some (skin2, roots) \<Rightarrow> Some (skin2, current_node # roots)))"

text \<open>The parents of the roots, as the comparison loop of the \<^verbatim>\<open>do\<close> loop reads them.\<close>

fun parents_of :: "FBXNode list \<Rightarrow> int list \<Rightarrow> int list option" where
  "parents_of nodes [] = Some []"
| "parents_of nodes (root_index # rest) =
     (case vget nodes root_index of
        None \<Rightarrow> None
      | Some node \<Rightarrow> map_option (\<lambda>ps. node_parent node # ps) (parents_of nodes rest))"

text \<open>One round of the \<^verbatim>\<open>do\<close> loop when the parents differ: every root is replaced by its
  parent, which is marked.\<close>

fun climb_all :: "FBXNode list \<Rightarrow> FBXSkin \<Rightarrow> int list \<Rightarrow> (FBXSkin \<times> int list) option" where
  "climb_all nodes p_skin [] = Some (p_skin, [])"
| "climb_all nodes p_skin (current_node # rest) =
     (case vget nodes current_node of
        None \<Rightarrow> None
      | Some node \<Rightarrow>
          (let parent = node_parent node in
           case vget nodes parent of
             None \<Rightarrow> None
           | Some parent_node \<Rightarrow>
               (case climb_all nodes (mark_node parent_node p_skin parent) rest of
                  None \<Rightarrow> None
                | Some (skin1, roots) \<Rightarrow> Some (skin1, parent # roots))))"

fun climb_to_same_parent ::
  "nat \<Rightarrow> FBXNode list \<Rightarrow> FBXSkin \<Rightarrow> int list \<Rightarrow> FBXSkin option" where
  "climb_to_same_parent 0 nodes p_skin roots = None"
| "climb_to_same_parent (Suc fuel) nodes p_skin roots =
     (case parents_of nodes roots of
        None \<Rightarrow> None
      | Some [] \<Rightarrow> None
      | Some (first_parent # others) \<Rightarrow>
          if list_all (\<lambda>p. first_parent = p) others then Some p_skin
          else (case climb_all nodes p_skin roots of
                  None \<Rightarrow> None
                | Some (skin1, roots1) \<Rightarrow> climb_to_same_parent fuel nodes skin1 roots1))"

text \<open>\<^verbatim>\<open>_capture_nodes_for_multirooted_skin\<close>.\<close>

definition capture_nodes_for_multirooted_skin ::
  "nat \<Rightarrow> FBXNode list \<Rightarrow> FBXSkin \<Rightarrow> FBXSkin option" where
  "capture_nodes_for_multirooted_skin fuel nodes p_skin =
     (case union_pass nodes (skin_joints p_skin) of
        None \<Rightarrow> None
      | Some disjoint_set \<Rightarrow>
          let roots = get_representatives disjoint_set in
          if length roots \<le> 1 then Some p_skin
          else
            (case max_height_loop nodes roots (-1) of
               None \<Rightarrow> None
             | Some maxHeight \<Rightarrow>
                 (case level_roots fuel nodes maxHeight p_skin roots of
                    None \<Rightarrow> None
                  | Some (skin1, roots1) \<Rightarrow> climb_to_same_parent fuel nodes skin1 roots1)))"

text \<open>
  The computation of the roots that \<^verbatim>\<open>_expand_skin\<close> and \<^verbatim>\<open>_verify_skin\<close> share: the
  union pass, the highest node of every set, sorted. The inner \<open>None\<close> is the return of
  \<^verbatim>\<open>FAILED\<close> for a set without highest node.
\<close>

fun highest_of_sets :: "FBXNode list \<Rightarrow> DisjointSet \<Rightarrow> int list \<Rightarrow> int list option option" where
  "highest_of_sets nodes disjoint_set [] = Some (Some [])"
| "highest_of_sets nodes disjoint_set (owner # rest) =
     (case find_highest_node nodes (get_members disjoint_set owner) of
        None \<Rightarrow> None
      | Some root_index \<Rightarrow>
          if root_index < 0 then Some None
          else (case highest_of_sets nodes disjoint_set rest of
                  None \<Rightarrow> None
                | Some None \<Rightarrow> Some None
                | Some (Some out_roots) \<Rightarrow> Some (Some (root_index # out_roots))))"

definition compute_roots :: "FBXNode list \<Rightarrow> int list \<Rightarrow> int list option option" where
  "compute_roots nodes all_skin_nodes =
     (case union_pass nodes all_skin_nodes of
        None \<Rightarrow> None
      | Some disjoint_set \<Rightarrow>
          (case highest_of_sets nodes disjoint_set (get_representatives disjoint_set) of
             None \<Rightarrow> None
           | Some None \<Rightarrow> Some None
           | Some (Some out_roots) \<Rightarrow> Some (Some (sort out_roots))))"

fun capture_roots :: "nat \<Rightarrow> FBXNode list \<Rightarrow> FBXSkin \<Rightarrow> int list \<Rightarrow> FBXSkin option" where
  "capture_roots fuel nodes p_skin [] = Some p_skin"
| "capture_roots fuel nodes p_skin (root_index # rest) =
     (case capture_nodes_in_skin fuel nodes p_skin root_index of
        None \<Rightarrow> None
      | Some (skin1, _) \<Rightarrow> capture_roots fuel nodes skin1 rest)"

text \<open>\<^verbatim>\<open>_expand_skin\<close>: the error code and the skin.\<close>

definition expand_skin :: "nat \<Rightarrow> FBXNode list \<Rightarrow> FBXSkin \<Rightarrow> (Error \<times> FBXSkin) option" where
  "expand_skin fuel nodes p_skin =
     (case capture_nodes_for_multirooted_skin fuel nodes p_skin of
        None \<Rightarrow> None
      | Some skin1 \<Rightarrow>
          (case compute_roots nodes (skin_joints skin1 @ skin_non_joints skin1) of
             None \<Rightarrow> None
           | Some None \<Rightarrow> Some (FAILED, skin1)
           | Some (Some out_roots) \<Rightarrow>
               (case capture_roots fuel nodes skin1 out_roots of
                  None \<Rightarrow> None
                | Some skin2 \<Rightarrow> Some (OK, skin2\<lparr>skin_roots := out_roots\<rparr>))))"

text \<open>\<^verbatim>\<open>_verify_skin\<close>; the loop that compares the parents of the roots returns at the
  first difference.\<close>

fun same_parent_loop :: "FBXNode list \<Rightarrow> int \<Rightarrow> int list \<Rightarrow> Error option" where
  "same_parent_loop nodes parent [] = Some OK"
| "same_parent_loop nodes parent (root_index # rest) =
     (case vget nodes root_index of
        None \<Rightarrow> None
      | Some node \<Rightarrow>
          if node_parent node \<noteq> parent then Some FAILED
          else same_parent_loop nodes parent rest)"

definition verify_skin :: "FBXNode list \<Rightarrow> FBXSkin \<Rightarrow> Error option" where
  "verify_skin nodes p_skin =
     (case compute_roots nodes (skin_joints p_skin @ skin_non_joints p_skin) of
        None \<Rightarrow> None
      | Some None \<Rightarrow> Some FAILED
      | Some (Some out_roots) \<Rightarrow>
          (case out_roots of
             [] \<Rightarrow> Some FAILED
           | first_root # others \<Rightarrow>
               if length out_roots \<noteq> length (skin_roots p_skin) then Some FAILED
               else if out_roots \<noteq> skin_roots p_skin then Some FAILED
               else if others = [] then Some OK
               else (case vget nodes first_root of
                       None \<Rightarrow> None
                     | Some node \<Rightarrow> same_parent_loop nodes (node_parent node) others)))"

subsection \<open>Notions used to state the properties of the codec\<close>

text \<open>The range of the integer component types.\<close>

definition component_range :: "int \<Rightarrow> int \<times> int" where
  "component_range ct =
     (if ct = COMPONENT_TYPE_BYTE then (-128, 127)
      else if ct = COMPONENT_TYPE_UNSIGNED_BYTE then (0, 255)
      else if ct = COMPONENT_TYPE_SHORT then (-32768, 32767)
      else if ct = COMPONENT_TYPE_UNSIGNED_SHORT then (0, 65535)
      else if ct = COMPONENT_TYPE_INT then (-2147483648, 2147483647)
      else (0, -1))"


text \<open>A value that a component type stores exactly: a value of binary32 for \<^verbatim>\<open>float\<close>; for an
  integer type an integer of its range, in an accessor that does not scale it.\<close>

definition exact_value :: "int \<Rightarrow> bool \<Rightarrow> real \<Rightarrow> bool" where
  "exact_value ct nm d =
     (if ct = COMPONENT_TYPE_FLOAT then float32_value (float32_bits d) = d
      else (\<not> nm \<or> ct = COMPONENT_TYPE_INT) \<and> d = of_int (c_trunc d)
           \<and> fst (component_range ct) \<le> c_trunc d \<and> c_trunc d \<le> snd (component_range ct))"

text \<open>The factor of a normalized narrow type, and the values whose product with it is in the
  range of the type.\<close>

definition max_magnitude :: "int \<Rightarrow> real" where
  "max_magnitude ct =
     (if ct = COMPONENT_TYPE_BYTE then 128
      else if ct = COMPONENT_TYPE_UNSIGNED_BYTE then 255
      else if ct = COMPONENT_TYPE_SHORT then 32768
      else if ct = COMPONENT_TYPE_UNSIGNED_SHORT then 65535
      else 1)"

definition quantized_value :: "int \<Rightarrow> bool \<Rightarrow> real \<Rightarrow> bool" where
  "quantized_value ct nm d =
     (nm \<and> ((ct = COMPONENT_TYPE_BYTE \<or> ct = COMPONENT_TYPE_SHORT) \<and> -1 \<le> d \<and> d < 1
            \<or> (ct = COMPONENT_TYPE_UNSIGNED_BYTE \<or> ct = COMPONENT_TYPE_UNSIGNED_SHORT)
                \<and> 0 \<le> d \<and> d \<le> 1))"

text \<open>A value whose conversion to the component type is defined, and the bytes stored for
  it.\<close>

definition storable :: "int \<Rightarrow> bool \<Rightarrow> real \<Rightarrow> bool" where
  "storable ct nm d = (encode_component ct nm d \<noteq> None)"

definition stored_bytes :: "int \<Rightarrow> bool \<Rightarrow> real \<Rightarrow> byte list" where
  "stored_bytes ct nm d = (case encode_component ct nm d of None \<Rightarrow> [] | Some bs \<Rightarrow> bs)"

text \<open>The byte offset, within its element, at which the decoder reads component \<open>j\<close>.\<close>

definition component_position :: "int \<Rightarrow> int \<Rightarrow> int \<Rightarrow> nat \<Rightarrow> int" where
  "component_position skip_every skip_bytes component_size j =
     int j * component_size + (if skip_every = 0 then 0 else skip_bytes * (int j div skip_every))"

text \<open>The layouts for which the source has a padding rule.\<close>

definition padded_layout :: "int \<Rightarrow> FBXType \<Rightarrow> bool" where
  "padded_layout ct t =
     ((ct = COMPONENT_TYPE_BYTE \<or> ct = COMPONENT_TYPE_UNSIGNED_BYTE)
        \<and> (t = TYPE_MAT2 \<or> t = TYPE_MAT3)
      \<or> (ct = COMPONENT_TYPE_SHORT \<or> ct = COMPONENT_TYPE_UNSIGNED_SHORT) \<and> t = TYPE_MAT3)"

text \<open>A value that 32-bit signed arithmetic computes without overflow.\<close>

definition fits_i32 :: "int \<Rightarrow> bool" where
  "fits_i32 x = (- (2 ^ 31) \<le> x \<and> x < 2 ^ 31)"


subsection \<open>Notions used to state the properties of the skins\<close>

text \<open>The node hierarchy as total functions of the index: the parent and the height of a
  node, \<open>-1\<close> and \<open>0\<close> for an index that is out of range.\<close>

definition valid_node :: "FBXNode list \<Rightarrow> int \<Rightarrow> bool" where
  "valid_node nodes v = (0 \<le> v \<and> v < int (length nodes))"

definition par :: "FBXNode list \<Rightarrow> int \<Rightarrow> int" where
  "par nodes v = (case vget nodes v of None \<Rightarrow> -1 | Some node \<Rightarrow> node_parent node)"

definition hgt :: "FBXNode list \<Rightarrow> int \<Rightarrow> int" where
  "hgt nodes v = (case vget nodes v of None \<Rightarrow> 0 | Some node \<Rightarrow> node_height node)"

definition kids :: "FBXNode list \<Rightarrow> int \<Rightarrow> int list" where
  "kids nodes v = (case vget nodes v of None \<Rightarrow> [] | Some node \<Rightarrow> node_children node)"

text \<open>
  The invariant of the node hierarchy: heights are not negative and a node without parent
  has height 0; the parent of any
  other node is a node, one level higher; every child listed by a node is a node whose
  parent is that node.
\<close>

definition wf_node :: "FBXNode list \<Rightarrow> int \<Rightarrow> bool" where
  "wf_node nodes v =
     (0 \<le> hgt nodes v
      \<and> (if par nodes v = -1 then hgt nodes v = 0
          else valid_node nodes (par nodes v) \<and> hgt nodes v = hgt nodes (par nodes v) + 1)
      \<and> list_all (\<lambda>c. valid_node nodes c \<and> par nodes c = v) (kids nodes v))"

definition wf_nodes :: "FBXNode list \<Rightarrow> bool" where
  "wf_nodes nodes = list_all (\<lambda>i. wf_node nodes (int i)) [0..<length nodes]"

text \<open>The greatest height of a node.\<close>

definition tree_depth :: "FBXNode list \<Rightarrow> nat" where
  "tree_depth nodes = foldr (\<lambda>node. max (nat (node_height node))) nodes 0"

text \<open>The nodes of a skin; the ancestor \<open>k\<close> levels up; the highest ancestor of a node that is
  reached inside a set of nodes; the nodes of a set whose parent is outside.\<close>

definition skin_nodes :: "FBXSkin \<Rightarrow> int set" where
  "skin_nodes p_skin = set (skin_joints p_skin) \<union> set (skin_non_joints p_skin)"

definition up :: "FBXNode list \<Rightarrow> nat \<Rightarrow> int \<Rightarrow> int" where
  "up nodes k v = (par nodes ^^ k) v"

fun top_from :: "nat \<Rightarrow> FBXNode list \<Rightarrow> int set \<Rightarrow> int \<Rightarrow> int" where
  "top_from 0 nodes V v = v"
| "top_from (Suc k) nodes V v =
     (if par nodes v \<in> V then top_from k nodes V (par nodes v) else v)"

definition top_of :: "FBXNode list \<Rightarrow> int set \<Rightarrow> int \<Rightarrow> int" where
  "top_of nodes V v = top_from (nat (hgt nodes v)) nodes V v"

definition tops :: "FBXNode list \<Rightarrow> int set \<Rightarrow> int set" where
  "tops nodes V = {v \<in> V. par nodes v \<notin> V}"

text \<open>
  The invariant of a disjoint set built over the nodes \<open>V\<close>, for a function \<open>f\<close> that is
  constant on the sets to unite: a find is idempotent and stays among the elements, elements
  are listed once, and \<open>f\<close> is the same for an element and its representative.
\<close>

definition ds_inv :: "(int \<Rightarrow> int) \<Rightarrow> int set \<Rightarrow> DisjointSet \<Rightarrow> bool" where
  "ds_inv f V ds =
     ((\<forall>u. ds_parent ds (ds_parent ds u) = ds_parent ds u)
      \<and> (\<forall>u \<in> set (ds_elements ds). ds_parent ds u \<in> set (ds_elements ds))
      \<and> (\<forall>u. u \<notin> set (ds_elements ds) \<longrightarrow> ds_parent ds u = u)
      \<and> distinct (ds_elements ds)
      \<and> (\<forall>u \<in> set (ds_elements ds). f (ds_parent ds u) = f u)
      \<and> set (ds_elements ds) \<subseteq> V)"

text \<open>
  The invariant of the two climbing loops of \<^verbatim>\<open>_capture_nodes_for_multirooted_skin\<close>, for
  the joints \<open>J\<close> of the skin, the representatives \<open>O\<close> of the union pass, the nodes \<open>V\<close> of the
  skin so far and the current roots \<open>R\<close>: a node that was added is a current root or has its
  parent in the skin, and the path from every representative up to some current root is in
  the skin.
\<close>

definition climb_inv :: "FBXNode list \<Rightarrow> int set \<Rightarrow> int set \<Rightarrow> int set \<Rightarrow> int set \<Rightarrow> bool" where
  "climb_inv nodes J O' V R =
     (J \<subseteq> V \<and> R \<subseteq> V \<and> (\<forall>x \<in> V. valid_node nodes x)
      \<and> (\<forall>u \<in> V. u \<in> J \<or> u \<in> R \<or> par nodes u \<in> V)
      \<and> (\<forall>o' \<in> O'. \<exists>c \<in> R. \<exists>m. c = up nodes m o' \<and> (\<forall>j \<le> m. up nodes j o' \<in> V)))"

text \<open>A skin whose joints give two or more representatives in the union pass over the
  joints.\<close>

definition multirooted :: "FBXNode list \<Rightarrow> FBXSkin \<Rightarrow> bool" where
  "multirooted nodes p_skin =
     (case union_pass nodes (skin_joints p_skin) of
        None \<Rightarrow> False
      | Some disjoint_set \<Rightarrow> 2 \<le> length (get_representatives disjoint_set))"

text \<open>The joint tag of a node; a node with its ancestors up to the scene root; a node that
  is the node \<open>a\<close> or lies below it.\<close>

definition is_joint :: "FBXNode list \<Rightarrow> int \<Rightarrow> bool" where
  "is_joint nodes v = (case vget nodes v of None \<Rightarrow> False | Some node \<Rightarrow> node_joint node)"

definition ancestors :: "FBXNode list \<Rightarrow> int \<Rightarrow> int list" where
  "ancestors nodes v = map (\<lambda>k. up nodes k v) [0..<Suc (nat (hgt nodes v))]"

definition below :: "FBXNode list \<Rightarrow> int \<Rightarrow> int \<Rightarrow> bool" where
  "below nodes a v = (\<exists>k. up nodes k v = a)"

text \<open>
  A skin that has stayed below the node \<open>a\<close>: all its nodes are \<open>a\<close> or lie below it, it
  holds the joints \<open>J\<close> it started with, and a node that was added to the joints has the joint
  tag.
\<close>

definition kept_below :: "FBXNode list \<Rightarrow> int \<Rightarrow> int set \<Rightarrow> FBXSkin \<Rightarrow> bool" where
  "kept_below nodes a J p_skin =
     ((\<forall>u \<in> skin_nodes p_skin. below nodes a u)
      \<and> set (skin_joints p_skin) \<subseteq> J \<union> {v. is_joint nodes v}
      \<and> J \<subseteq> skin_nodes p_skin)"
subsection \<open>Example data\<close>

text \<open>A float \<^verbatim>\<open>VEC3\<close> accessor of two elements without buffer view and without sparse data.\<close>

definition example_accessor :: FBXAccessor where
  "example_accessor = \<lparr>a_buffer_view = -1, a_byte_offset = 0,
     a_component_type = COMPONENT_TYPE_FLOAT, a_normalized = False, a_count = 2,
     a_type = TYPE_VEC3, a_sparse_count = 0, a_sparse_indices_buffer_view = 0,
     a_sparse_indices_byte_offset = 0, a_sparse_indices_component_type = 0,
     a_sparse_values_buffer_view = 0, a_sparse_values_byte_offset = 0\<rparr>"



text \<open>A state with an empty main buffer and no views.\<close>

definition empty_state :: FBXState where
  "empty_state = \<lparr>buffers = [[]], buffer_views = [], accessors = []\<rparr>"

text \<open>The state after one call of \<^verbatim>\<open>_encode_buffer_view\<close> that stored the \<^verbatim>\<open>int\<close> 7 in
  the empty main buffer.\<close>

definition second_view_state :: FBXState where
  "second_view_state =
     \<lparr>buffers = [[7, 0, 0, 0]],
      buffer_views = [\<lparr>bv_buffer = 0, bv_byte_offset = 0, bv_byte_length = 4,
                       bv_byte_stride = -1\<rparr>],
      accessors = []\<rparr>"

text \<open>Encoding and then decoding the new view with the layout \<^verbatim>\<open>_decode_accessor\<close> computes
  for the same type and component type, at accessor offset 0.\<close>

definition encode_then_decode ::
  "FBXState \<Rightarrow> real list \<Rightarrow> int \<Rightarrow> FBXType \<Rightarrow> int \<Rightarrow> bool \<Rightarrow> int \<Rightarrow> bool
     \<Rightarrow> (Error \<times> real list) option" where
  "encode_then_decode p_state p_src p_count p_type p_component_type p_normalized p_byte_offset
       p_for_vertex =
     (case encode_buffer_view p_state p_src p_count p_type p_component_type p_normalized
             p_byte_offset p_for_vertex of
        None \<Rightarrow> None
      | Some (err, state', r_accessor) \<Rightarrow>
          (case r_accessor of
             None \<Rightarrow> Some (err, [])
           | Some view \<Rightarrow>
               (case decode_alignment p_component_type p_type
                       (component_count_for_type p_type
                          * get_component_type_size p_component_type) of
                  (skip_every, skip_bytes, element_size) \<Rightarrow>
                    decode_buffer_view state' view skip_every skip_bytes element_size p_count
                      p_type (component_count_for_type p_type) p_component_type
                      (get_component_type_size p_component_type) p_normalized 0 p_for_vertex)))"

text \<open>An unsigned short \<^verbatim>\<open>MAT3\<close> accessor of one element over a buffer of 22 bytes: six
  components, four bytes of padding (99), three components.\<close>

definition mat3_accessor :: FBXAccessor where
  "mat3_accessor = \<lparr>a_buffer_view = 0, a_byte_offset = 0,
     a_component_type = COMPONENT_TYPE_UNSIGNED_SHORT, a_normalized = False, a_count = 1,
     a_type = TYPE_MAT3, a_sparse_count = 0, a_sparse_indices_buffer_view = 0,
     a_sparse_indices_byte_offset = 0, a_sparse_indices_component_type = 0,
     a_sparse_values_buffer_view = 0, a_sparse_values_byte_offset = 0\<rparr>"

definition mat3_state :: FBXState where
  "mat3_state = \<lparr>buffers = [[1, 0, 2, 0, 3, 0, 4, 0, 5, 0, 6, 0, 99, 99, 99, 99,
                               7, 0, 8, 0, 9, 0]],
     buffer_views = [\<lparr>bv_buffer = 0, bv_byte_offset = 0, bv_byte_length = 22,
                       bv_byte_stride = -1\<rparr>],
     accessors = [mat3_accessor]\<rparr>"


text \<open>
  A skip-level scenario: node 0 is the scene root and not a joint; joint 0 is node 1; node 2
  is not a joint, its parent is joint 0 and it is the parent of joint 2, node 3; joint 1 is
  node 5, two levels below joint 0 through node 4, which is not a joint.
\<close>

definition skip_level_nodes :: "FBXNode list" where
  "skip_level_nodes =
     [\<lparr>node_parent = -1, node_height = 0, node_children = [1], node_joint = False\<rparr>,
      \<lparr>node_parent = 0, node_height = 1, node_children = [2, 4], node_joint = True\<rparr>,
      \<lparr>node_parent = 1, node_height = 2, node_children = [3], node_joint = False\<rparr>,
      \<lparr>node_parent = 2, node_height = 3, node_children = [], node_joint = True\<rparr>,
      \<lparr>node_parent = 1, node_height = 2, node_children = [5], node_joint = False\<rparr>,
      \<lparr>node_parent = 4, node_height = 3, node_children = [], node_joint = True\<rparr>]"

definition skip_level_skin :: FBXSkin where
  "skip_level_skin = \<lparr>skin_joints = [1, 5, 3], skin_non_joints = [], skin_roots = []\<rparr>"

text \<open>A scenario with joint 1 on a scene root of its own: the joints 0, 1 and 2 are the
  nodes 0, 1 and 2, node 3 is not a joint, its parent is joint 0 and it is the parent of
  joint 2.\<close>

definition two_tree_skin :: FBXSkin where
  "two_tree_skin = \<lparr>skin_joints = [0, 1, 2], skin_non_joints = [], skin_roots = []\<rparr>"

definition two_tree_nodes :: "FBXNode list" where
  "two_tree_nodes =
     [\<lparr>node_parent = -1, node_height = 0, node_children = [3], node_joint = True\<rparr>,
      \<lparr>node_parent = -1, node_height = 0, node_children = [], node_joint = True\<rparr>,
      \<lparr>node_parent = 3, node_height = 2, node_children = [], node_joint = True\<rparr>,
      \<lparr>node_parent = 0, node_height = 1, node_children = [2], node_joint = False\<rparr>]"

text \<open>
  A hierarchy with three separate joints at different heights: node 0 is the scene root,
  node 1 its child with the joint 2 below; joint 3 is a child of node 0, with node 4 and
  below it joint 5.
\<close>

definition forked_nodes :: "FBXNode list" where
  "forked_nodes =
     [\<lparr>node_parent = -1, node_height = 0, node_children = [1, 3], node_joint = False\<rparr>,
      \<lparr>node_parent = 0, node_height = 1, node_children = [2], node_joint = False\<rparr>,
      \<lparr>node_parent = 1, node_height = 2, node_children = [], node_joint = True\<rparr>,
      \<lparr>node_parent = 0, node_height = 1, node_children = [4], node_joint = True\<rparr>,
      \<lparr>node_parent = 3, node_height = 2, node_children = [5], node_joint = False\<rparr>,
      \<lparr>node_parent = 4, node_height = 3, node_children = [], node_joint = True\<rparr>]"

definition forked_skin :: FBXSkin where
  "forked_skin = \<lparr>skin_joints = [2, 3, 5], skin_non_joints = [], skin_roots = []\<rparr>"
section \<open>Properties\<close>

declare swap_winding_from.simps [simp del]
declare normalize_weights_4_from.simps [simp del]
declare normalize_weights_8_from.simps [simp del]
declare merge_weights_from.simps [simp del]
declare renorm_groups.simps [simp del]

subsection \<open>Lists cut into groups\<close>

lemma drop3: "k + 2 < length w \<Longrightarrow> drop k w = w ! k # w ! (k + 1) # w ! (k + 2) # drop (k + 3) w"
proof -
  assume a: "k + 2 < length w"
  have "drop k w = w ! k # drop (Suc k) w" using a by (simp add: Cons_nth_drop_Suc)
  also have "drop (Suc k) w = w ! (k + 1) # drop (Suc (Suc k)) w" using a by (simp add: Cons_nth_drop_Suc)
  also have "drop (Suc (Suc k)) w = w ! (k + 2) # drop (k + 3) w"
    using a Cons_nth_drop_Suc[of "k + 2" w] by (simp add: numeral_3_eq_3)
  finally show ?thesis .
qed

lemma take_drop_chunk:
  "k + g \<le> length w \<Longrightarrow> w = take k w @ take g (drop k w) @ drop (k + g) w"
  by (metis append_take_drop_id drop_drop add.commute)

lemma concat_chunk:
  "\<forall>x \<in> set xs. length x = g \<Longrightarrow> k < length xs \<Longrightarrow> take g (drop (g * k) (concat xs)) = xs ! k"
proof (induction xs arbitrary: k)
  case Nil
  then show ?case by simp
next
  case (Cons x xs)
  show ?case
  proof (cases k)
    case 0
    then show ?thesis using Cons.prems by simp
  next
    case (Suc k')
    have "drop (g * k) (x @ concat xs) = drop (g * k') (concat xs)"
      using Cons.prems(1) Suc by simp
    then show ?thesis using Cons.IH[of k'] Cons.prems Suc by simp
  qed
qed

lemma length_concat_chunks:
  "\<forall>x \<in> set xs. length x = g \<Longrightarrow> length (concat xs) = g * length xs"
  by (induction xs) auto

subsection \<open>Triangle winding\<close>

lemma swap_winding_from_triples:
  "k \<le> length w \<Longrightarrow>
   swap_winding_from k w = map_option (\<lambda>r. take k w @ r) (swap_triples (drop k w))"
proof (induction k w rule: swap_winding_from.induct)
  case (1 k w)
  show ?case
  proof (cases "k < length w")
    case False
    with 1(2) have "k = length w" by simp
    then show ?thesis by (subst swap_winding_from.simps) simp
  next
    case True
    show ?thesis
    proof (cases "k + 2 < length w")
      case False
      then have "length (drop k w) = 1 \<or> length (drop k w) = 2" using True by auto
      then have "swap_triples (drop k w) = None"
        by (cases "drop k w" rule: swap_triples.cases) auto
      then show ?thesis using True False by (simp add: swap_winding_from.simps[of k w])
    next
      case lt: True
      let ?w2 = "w[k + 1 := w ! (k + 2), k + 2 := w ! (k + 1)]"
      have d2: "drop (k + 3) ?w2 = drop (k + 3) w" by simp
      have t2: "take (k + 3) ?w2 = take k w @ [w ! k, w ! (k + 2), w ! (k + 1)]"
      proof -
        have "take (k + 3) ?w2 @ drop (k + 3) ?w2 = take k ?w2 @ drop k ?w2"
          by (simp only: append_take_drop_id)
        moreover have "drop k ?w2 = ?w2 ! k # ?w2 ! (k + 1) # ?w2 ! (k + 2) # drop (k + 3) ?w2"
          using drop3[of k ?w2] lt by simp
        moreover have "take k ?w2 = take k w" by simp
        moreover have "?w2 ! k = w ! k" "?w2 ! (k + 1) = w ! (k + 2)" "?w2 ! (k + 2) = w ! (k + 1)"
          using lt by simp_all
        ultimately have "take (k + 3) ?w2 @ drop (k + 3) ?w2
            = (take k w @ [w ! k, w ! (k + 2), w ! (k + 1)]) @ drop (k + 3) ?w2" by simp
        then show ?thesis by (rule append_same_eq[THEN iffD1])
      qed
      have ih: "swap_winding_from (k + 3) ?w2
          = map_option (\<lambda>r. take (k + 3) ?w2 @ r) (swap_triples (drop (k + 3) ?w2))"
        using 1(1)[OF True lt] lt by simp
      have "swap_winding_from k w = swap_winding_from (k + 3) ?w2"
        using True lt by (simp add: swap_winding_from.simps[of k w])
      also have "\<dots> = map_option (\<lambda>r. take k w @ [w ! k, w ! (k + 2), w ! (k + 1)] @ r)
                          (swap_triples (drop (k + 3) w))"
        unfolding ih t2 d2 by (cases "swap_triples (drop (k + 3) w)") simp_all
      also have "\<dots> = map_option (\<lambda>r. take k w @ r) (swap_triples (drop k w))"
        by (cases "swap_triples (drop (k + 3) w)") (simp_all add: drop3[OF lt])
      finally show ?thesis .
    qed
  qed
qed

lemma swap_winding_triples: "swap_winding w = swap_triples w"
  using swap_winding_from_triples[of 0 w] by (simp add: swap_winding_def option.map_ident)

lemma swap_triples_total:
  "length xs mod 3 = 0 \<Longrightarrow> \<exists>ys. swap_triples xs = Some ys"
proof (induction xs rule: swap_triples.induct)
  case 1 show ?case by simp
next
  case (2 a b c rest)
  then show ?case by auto
qed auto

lemma swap_triples_involution:
  "swap_triples xs = Some ys \<Longrightarrow> swap_triples ys = Some xs"
  by (induction xs arbitrary: ys rule: swap_triples.induct) auto

lemma swap_triples_length:
  "swap_triples xs = Some ys \<Longrightarrow> length ys = length xs"
  by (induction xs arbitrary: ys rule: swap_triples.induct) auto

lemma swap_triples_nth:
  "swap_triples xs = Some ys \<Longrightarrow> 3 * t + 2 < length xs \<Longrightarrow>
   ys ! (3 * t) = xs ! (3 * t) \<and> ys ! (3 * t + 1) = xs ! (3 * t + 2) \<and> ys ! (3 * t + 2) = xs ! (3 * t + 1)"
proof (induction xs arbitrary: ys t rule: swap_triples.induct)
  case 1 then show ?case by simp
next
  case (2 a b c rest)
  then obtain r where r: "swap_triples rest = Some r" "ys = a # c # b # r" by auto
  show ?case
  proof (cases t)
    case 0
    then show ?thesis using r by simp
  next
    case (Suc t')
    have "3 * t' + 2 < length rest" using 2(3) Suc by simp
    from 2(1)[OF r(1) this] show ?thesis using r(2) Suc
      by (simp add: numeral_3_eq_3)
  qed
qed auto

text \<open>
  C7. On an index list whose length is a multiple of 3 the winding flip of \<^verbatim>\<open>_parse_meshes\<close>
  returns a list of the same length in which the 2nd and 3rd index of every triangle are
  exchanged and the 1st is kept, and the flip applied to its own result gives the original
  list back: flipping on decode and flipping again on encode restores the document's order.
\<close>

theorem winding_flip_involution:
  "length w mod 3 = 0 \<Longrightarrow>
   (\<exists>w'. swap_winding w = Some w' \<and> length w' = length w \<and>
     (\<forall>t. 3 * t + 2 < length w \<longrightarrow>
        w' ! (3 * t) = w ! (3 * t) \<and> w' ! (3 * t + 1) = w ! (3 * t + 2) \<and>
        w' ! (3 * t + 2) = w ! (3 * t + 1)) \<and>
     swap_winding w' = Some w)"
  using swap_triples_total[of w] swap_triples_involution[of w] swap_triples_length[of w]
    swap_triples_nth[of w]
  by (auto simp: swap_winding_triples)

theorem winding_flip_involution_witness:
  "length [0, 1, 2, 3, 4, 5 :: int] mod 3 = 0 \<and>
   swap_winding [0, 1, 2, 3, 4, 5] = Some [0, 2, 1, 3, 5, 4] \<and>
   swap_winding [0, 2, 1, 3, 5, 4] = Some [0, 1, 2, 3, 4, 5]"
proof -
  have e: "swap_winding [0, 1, 2, 3, 4, 5] = Some [0, 2, 1, 3, 5, 4]"
    by (simp add: swap_winding_def swap_winding_from.simps)
  from winding_flip_involution[of "[0, 1, 2, 3, 4, 5]"]
  obtain w' where "swap_winding [0, 1, 2, 3, 4, 5] = Some w'" "swap_winding w' = Some [0, 1, 2, 3, 4, 5]"
    by auto
  with e show ?thesis by simp
qed

subsection \<open>Bone weights\<close>

lemma sum_list_map_divide: "sum_list (map (\<lambda>x. x / c) xs) = sum_list xs / (c :: real)"
  by (induction xs) (simp_all add: add_divide_distrib)

lemma renorm_tuple_sum: "sum_list t > 0 \<Longrightarrow> sum_list (renorm_tuple t) = 1"
  by (simp add: renorm_tuple_def sum_list_map_divide)

lemma renorm_tuple_same: "\<not> sum_list t > 0 \<Longrightarrow> renorm_tuple t = t"
  by (simp add: renorm_tuple_def)

lemma renorm_tuple_length [simp]: "length (renorm_tuple t) = length t"
  by (simp add: renorm_tuple_def)

lemma renorm_groups_total:
  "g > 0 \<Longrightarrow> length xs mod g = 0 \<Longrightarrow> \<exists>ys. renorm_groups g xs = Some ys"
proof (induction g xs rule: renorm_groups.induct)
  case (1 g xs)
  show ?case
  proof (cases "xs = []")
    case True
    then show ?thesis using 1(2) by (subst renorm_groups.simps) simp
  next
    case False
    have ge: "\<not> length xs < g"
    proof
      assume "length xs < g"
      then have "length xs mod g = length xs" by simp
      with 1(3) False show False by simp
    qed
    have "length (drop g xs) mod g = 0"
      using 1(3) ge le_mod_geq[of g "length xs"] by simp
    from 1(1)[OF _ False ge 1(2) this] 1(2) obtain ys where "renorm_groups g (drop g xs) = Some ys"
      by auto
    then show ?thesis using False ge 1(2) by (subst renorm_groups.simps) simp
  qed
qed

lemma renorm_groups_length:
  "renorm_groups g xs = Some ys \<Longrightarrow> length ys = length xs"
proof (induction g xs arbitrary: ys rule: renorm_groups.induct)
  case (1 g xs)
  from 1(2) have g: "g \<noteq> 0" by (subst (asm) renorm_groups.simps) (auto split: if_splits)
  show ?case
  proof (cases "xs = []")
    case True
    with 1(2) g show ?thesis by (subst (asm) renorm_groups.simps) simp
  next
    case False
    from 1(2) g False have ge: "\<not> length xs < g"
      by (subst (asm) renorm_groups.simps) (auto split: if_splits)
    from 1(2) g False ge obtain r where r: "renorm_groups g (drop g xs) = Some r"
        "ys = renorm_tuple (take g xs) @ r"
      by (subst (asm) renorm_groups.simps) auto
    from 1(1)[OF g False ge r(1)] r(2) ge show ?thesis by simp
  qed
qed

lemma renorm_groups_chunk:
  "renorm_groups g xs = Some ys \<Longrightarrow> g * t + g \<le> length xs \<Longrightarrow>
   take g (drop (g * t) ys) = renorm_tuple (take g (drop (g * t) xs))"
proof (induction g xs arbitrary: ys t rule: renorm_groups.induct)
  case (1 g xs)
  from 1(2) have g: "g \<noteq> 0" by (subst (asm) renorm_groups.simps) (auto split: if_splits)
  have ne: "xs \<noteq> []" using 1(3) g by auto
  from 1(2) g ne have ge: "\<not> length xs < g"
    by (subst (asm) renorm_groups.simps) (auto split: if_splits)
  from 1(2) g ne ge obtain r where r: "renorm_groups g (drop g xs) = Some r"
      "ys = renorm_tuple (take g xs) @ r"
    by (subst (asm) renorm_groups.simps) auto
  have lt: "length (renorm_tuple (take g xs)) = g" using ge by simp
  show ?case
  proof (cases t)
    case 0
    then show ?thesis using r(2) lt by simp
  next
    case (Suc t')
    have le: "g * t' + g \<le> length (drop g xs)" using 1(3) Suc by simp
    have "drop (g * t) ys = drop (g * t') r"
      using r(2) lt Suc by simp
    moreover have "drop (g * t) xs = drop (g * t') (drop g xs)"
      using Suc by (simp add: add.commute)
    ultimately show ?thesis using 1(1)[OF g ne ge r(1) le] by simp
  qed
qed

lemma take_Suc_drop:
  "k < length w \<Longrightarrow> take (Suc n) (drop k w) = w ! k # take n (drop (Suc k) w)"
  by (simp add: Cons_nth_drop_Suc[symmetric])

lemma take4_drop:
  "k + 3 < length w \<Longrightarrow> take 4 (drop k w) = [w ! k, w ! (k + 1), w ! (k + 2), w ! (k + 3)]"
  by (simp add: take_Suc_drop eval_nat_numeral)

lemma update4:
  "k + 3 < length w \<Longrightarrow>
   w[k := a, k + 1 := b, k + 2 := c, k + 3 := d] = take k w @ [a, b, c, d] @ drop (k + 4) w"
  by (rule nth_equalityI) (auto simp: nth_append nth_list_update nth_Cons')

lemma take8_drop:
  "k + 7 < length w \<Longrightarrow>
   take 8 (drop k w) = [w ! k, w ! (k + 1), w ! (k + 2), w ! (k + 3),
                        w ! (k + 4), w ! (k + 5), w ! (k + 6), w ! (k + 7)]"
  by (simp add: take_Suc_drop eval_nat_numeral)

lemma update8:
  "k + 7 < length w \<Longrightarrow>
   w[k := a, k + 1 := b, k + 2 := c, k + 3 := d, k + 4 := e, k + 5 := f, k + 6 := g, k + 7 := h]
     = take k w @ [a, b, c, d, e, f, g, h] @ drop (k + 8) w"
  by (rule nth_equalityI) (auto simp: nth_append nth_list_update nth_Cons')


lemma normalize_weights_4_groups:
  "k \<le> length w \<Longrightarrow>
   normalize_weights_4_from k w = map_option (\<lambda>r. take k w @ r) (renorm_groups 4 (drop k w))"
proof (induction k w rule: normalize_weights_4_from.induct)
  case (1 k w)
  show ?case
  proof (cases "k < length w")
    case False
    with 1(2) have "k = length w" by simp
    then show ?thesis
      by (subst normalize_weights_4_from.simps, subst renorm_groups.simps) simp
  next
    case True
    show ?thesis
    proof (cases "k + 3 < length w")
      case False
      then have "renorm_groups 4 (drop k w) = None"
        using True by (subst renorm_groups.simps) auto
      then show ?thesis using True False by (subst normalize_weights_4_from.simps) simp
    next
      case lt: True
      define tup where "tup = take 4 (drop k w)"
      define total where "total = 0 + w ! (k + 0) + w ! (k + 1) + w ! (k + 2) + w ! (k + 3)"
      define w2 where "w2 = (if total > 0 then w[k + 0 := w ! (k + 0) / total, k + 1 := w ! (k + 1) / total, k + 2 := w ! (k + 2) / total, k + 3 := w ! (k + 3) / total] else w)"
      have tup: "tup = [w ! k, w ! (k + 1), w ! (k + 2), w ! (k + 3)]"
        unfolding tup_def using lt by (rule take4_drop)
      have total: "total = sum_list tup" by (simp add: tup total_def)
      have w2: "w2 = take k w @ renorm_tuple tup @ drop (k + 4) w"
      proof (cases "total > 0")
        case True
        then have r: "renorm_tuple tup = map (\<lambda>x. x / total) tup"
          by (simp add: renorm_tuple_def total)
        show ?thesis unfolding r using True update4[OF lt] by (simp add: w2_def tup)
      next
        case False
        then have r: "renorm_tuple tup = tup"
          by (simp add: renorm_tuple_def total)
        show ?thesis unfolding r using False take_drop_chunk[of k 4 w] lt
          by (simp add: w2_def tup_def)
      qed
      have len: "length tup = 4" by (simp add: tup)
      have t2: "take (k + 4) w2 = take k w @ renorm_tuple tup"
        using lt by (simp add: w2 len)
      have d2: "drop (k + 4) w2 = drop (k + 4) w"
        using lt by (simp add: w2 len)
      have kl: "k + 4 \<le> length w2" using lt by (simp add: w2 len)
      have ih: "normalize_weights_4_from (k + 4) w2
          = map_option (\<lambda>r. take (k + 4) w2 @ r) (renorm_groups 4 (drop (k + 4) w2))"
        using 1(1)[OF True lt total_def, folded w2_def] kl by simp
      have "normalize_weights_4_from k w = normalize_weights_4_from (k + 4) w2"
        using True lt by (subst normalize_weights_4_from.simps) (simp add: w2_def total_def Let_def)
      also have "\<dots> = map_option (\<lambda>r. take k w @ renorm_tuple tup @ r)
                          (renorm_groups 4 (drop (k + 4) w))"
        unfolding ih t2 d2 by (cases "renorm_groups 4 (drop (k + 4) w)") simp_all
      also have "\<dots> = map_option (\<lambda>r. take k w @ r) (renorm_groups 4 (drop k w))"
      proof -
        have "renorm_groups 4 (drop k w)
            = map_option (\<lambda>r. renorm_tuple tup @ r) (renorm_groups 4 (drop (k + 4) w))"
          using lt by (subst renorm_groups.simps) (auto simp: tup_def add.commute)
        then show ?thesis by (cases "renorm_groups 4 (drop (k + 4) w)") simp_all
      qed
      finally show ?thesis .
    qed
  qed
qed

lemma normalize_weights_8_groups:
  "k \<le> length w \<Longrightarrow>
   normalize_weights_8_from k w = map_option (\<lambda>r. take k w @ r) (renorm_groups 8 (drop k w))"
proof (induction k w rule: normalize_weights_8_from.induct)
  case (1 k w)
  show ?case
  proof (cases "k < length w")
    case False
    with 1(2) have "k = length w" by simp
    then show ?thesis
      by (subst normalize_weights_8_from.simps, subst renorm_groups.simps) simp
  next
    case True
    show ?thesis
    proof (cases "k + 7 < length w")
      case False
      then have "renorm_groups 8 (drop k w) = None"
        using True by (subst renorm_groups.simps) auto
      then show ?thesis using True False by (subst normalize_weights_8_from.simps) simp
    next
      case lt: True
      define tup where "tup = take 8 (drop k w)"
      define total where "total = 0 + w ! (k + 0) + w ! (k + 1) + w ! (k + 2) + w ! (k + 3) + w ! (k + 4) + w ! (k + 5) + w ! (k + 6) + w ! (k + 7)"
      define w2 where "w2 = (if total > 0 then w[k + 0 := w ! (k + 0) / total, k + 1 := w ! (k + 1) / total, k + 2 := w ! (k + 2) / total, k + 3 := w ! (k + 3) / total, k + 4 := w ! (k + 4) / total, k + 5 := w ! (k + 5) / total, k + 6 := w ! (k + 6) / total, k + 7 := w ! (k + 7) / total] else w)"
      have tup: "tup = [w ! k, w ! (k + 1), w ! (k + 2), w ! (k + 3), w ! (k + 4), w ! (k + 5), w ! (k + 6), w ! (k + 7)]"
        unfolding tup_def using lt by (rule take8_drop)
      have total: "total = sum_list tup" by (simp add: tup total_def)
      have w2: "w2 = take k w @ renorm_tuple tup @ drop (k + 8) w"
      proof (cases "total > 0")
        case True
        then have r: "renorm_tuple tup = map (\<lambda>x. x / total) tup"
          by (simp add: renorm_tuple_def total)
        show ?thesis unfolding r using True update8[OF lt] by (simp add: w2_def tup)
      next
        case False
        then have r: "renorm_tuple tup = tup"
          by (simp add: renorm_tuple_def total)
        show ?thesis unfolding r using False take_drop_chunk[of k 8 w] lt
          by (simp add: w2_def tup_def)
      qed
      have len: "length tup = 8" by (simp add: tup)
      have t2: "take (k + 8) w2 = take k w @ renorm_tuple tup"
        using lt by (simp add: w2 len)
      have d2: "drop (k + 8) w2 = drop (k + 8) w"
        using lt by (simp add: w2 len)
      have kl: "k + 8 \<le> length w2" using lt by (simp add: w2 len)
      have ih: "normalize_weights_8_from (k + 8) w2
          = map_option (\<lambda>r. take (k + 8) w2 @ r) (renorm_groups 8 (drop (k + 8) w2))"
        using 1(1)[OF True lt total_def, folded w2_def] kl by simp
      have "normalize_weights_8_from k w = normalize_weights_8_from (k + 8) w2"
        using True lt by (subst normalize_weights_8_from.simps) (simp add: w2_def total_def Let_def)
      also have "\<dots> = map_option (\<lambda>r. take k w @ renorm_tuple tup @ r)
                          (renorm_groups 8 (drop (k + 8) w))"
        unfolding ih t2 d2 by (cases "renorm_groups 8 (drop (k + 8) w)") simp_all
      also have "\<dots> = map_option (\<lambda>r. take k w @ r) (renorm_groups 8 (drop k w))"
      proof -
        have "renorm_groups 8 (drop k w)
            = map_option (\<lambda>r. renorm_tuple tup @ r) (renorm_groups 8 (drop (k + 8) w))"
          using lt by (subst renorm_groups.simps) (auto simp: tup_def add.commute)
        then show ?thesis by (cases "renorm_groups 8 (drop (k + 8) w)") simp_all
      qed
      finally show ?thesis .
    qed
  qed
qed

lemma merge_weights_from_concat:
  "v \<le> n \<Longrightarrow> length weights = 8 * n \<Longrightarrow> 4 * n \<le> length w0 \<Longrightarrow> 4 * n \<le> length w1 \<Longrightarrow>
   merge_weights_from v n w0 w1 weights
     = Some (take (8 * v) weights
             @ concat (map (\<lambda>u. take 4 (drop (4 * u) w0) @ take 4 (drop (4 * u) w1)) [v..<n]))"
proof (induction v n w0 w1 weights rule: merge_weights_from.induct)
  case (1 v n w0 w1 weights)
  let ?f = "\<lambda>u. take 4 (drop (4 * u) w0) @ take 4 (drop (4 * u) w1)"
  show ?case
  proof (cases "v < n")
    case False
    with 1(2) have "v = n" by simp
    then show ?thesis using 1(3) by (subst merge_weights_from.simps) simp
  next
    case True
    have b0: "v * 4 + 3 < length w0" and b1: "v * 4 + 3 < length w1"
      and bw: "v * 8 + 7 < length weights"
      using True 1(3,4,5) by auto
    define w2 where "w2 = weights[v * 8 + 0 := w0 ! (v * 4 + 0), v * 8 + 1 := w0 ! (v * 4 + 1),
        v * 8 + 2 := w0 ! (v * 4 + 2), v * 8 + 3 := w0 ! (v * 4 + 3),
        v * 8 + 4 := w1 ! (v * 4 + 0), v * 8 + 5 := w1 ! (v * 4 + 1),
        v * 8 + 6 := w1 ! (v * 4 + 2), v * 8 + 7 := w1 ! (v * 4 + 3)]"
    have fv: "?f v = [w0 ! (v * 4), w0 ! (v * 4 + 1), w0 ! (v * 4 + 2), w0 ! (v * 4 + 3),
                      w1 ! (v * 4), w1 ! (v * 4 + 1), w1 ! (v * 4 + 2), w1 ! (v * 4 + 3)]"
      using take4_drop[OF b0] take4_drop[OF b1] by (simp add: mult.commute)
    have w2: "w2 = take (v * 8) weights @ ?f v @ drop (v * 8 + 8) weights"
      unfolding fv w2_def using update8[OF bw] by simp
    have lf: "length (?f v) = 8" by (simp add: fv)
    have t2: "take (8 * (v + 1)) w2 = take (8 * v) weights @ ?f v"
      using bw lf by (simp add: w2 mult.commute)
    have l2: "length w2 = 8 * n" using 1(3) by (simp add: w2_def)
    have ih: "merge_weights_from (v + 1) n w0 w1 w2
        = Some (take (8 * (v + 1)) w2 @ concat (map ?f [v + 1..<n]))"
      using 1(1)[OF True _ _ _ 1(4) 1(5), folded w2_def] b0 b1 bw True l2 by simp
    have "merge_weights_from v n w0 w1 weights = merge_weights_from (v + 1) n w0 w1 w2"
      using True b0 b1 bw by (subst merge_weights_from.simps) (simp add: w2_def)
    also have "\<dots> = Some (take (8 * v) weights @ ?f v @ concat (map ?f [v + 1..<n]))"
      unfolding ih t2 by simp
    also have "?f v @ concat (map ?f [v + 1..<n]) = concat (map ?f [v..<n])"
      using True by (simp add: upt_conv_Cons)
    finally show ?thesis .
  qed
qed

lemma merge_weights_chunk:
  assumes "length w0 = length w1" "4 * n \<le> length w0"
  shows "\<exists>weights. merge_weights_from 0 n w0 w1 (replicate (n * 8) 0) = Some weights
           \<and> length weights = 8 * n
           \<and> (\<forall>v<n. take 8 (drop (8 * v) weights)
                      = take 4 (drop (4 * v) w0) @ take 4 (drop (4 * v) w1))"
proof -
  let ?f = "\<lambda>u. take 4 (drop (4 * u) w0) @ take 4 (drop (4 * u) w1)"
  let ?ws = "concat (map ?f [0..<n])"
  have m: "merge_weights_from 0 n w0 w1 (replicate (n * 8) 0) = Some ?ws"
    using merge_weights_from_concat[of 0 n "replicate (n * 8) 0" w0 w1] assms by simp
  have all8: "\<forall>x \<in> set (map ?f [0..<n]). length x = 8"
    using assms by auto
  have "length ?ws = 8 * n" using length_concat_chunks[OF all8] by simp
  moreover have "\<forall>v<n. take 8 (drop (8 * v) ?ws) = ?f v"
    using concat_chunk[OF all8] by simp
  ultimately show ?thesis using m by blast
qed

lemma normalize_weights_correct:
  assumes "f = normalize_weights_4_from \<and> g = 4 \<or> f = normalize_weights_8_from \<and> g = 8"
    and "length ws mod g = 0"
  shows "\<exists>w. f 0 ws = Some w \<and> length w = length ws
           \<and> (\<forall>t. g * t + g \<le> length ws \<longrightarrow>
                 take g (drop (g * t) w) = renorm_tuple (take g (drop (g * t) ws)))"
proof -
  have f: "f 0 ws = renorm_groups g ws" and g: "g > 0"
    using assms(1) normalize_weights_4_groups[of 0 ws] normalize_weights_8_groups[of 0 ws]
    by (auto simp: option.map_ident)
  from renorm_groups_total[OF g assms(2)] obtain w where w: "renorm_groups g ws = Some w" by blast
  show ?thesis
    using w f renorm_groups_length[OF w] renorm_groups_chunk[OF w] by auto
qed

text \<open>
  C6. With \<^verbatim>\<open>WEIGHTS_0\<close> alone (a whole number of 4-tuples) and with the merged
  \<^verbatim>\<open>WEIGHTS_0\<close>/\<^verbatim>\<open>WEIGHTS_1\<close> pair (8 weights per vertex, 4 from each set), the assembler
  returns an array in which every tuple with a positive sum is the tuple divided by its sum,
  so that it sums to 1, and every tuple whose sum is not positive is unchanged. Weights are
  real numbers here, so the sum is exactly 1.
\<close>

theorem weights_renormalized:
  "(length weights_0 mod 4 = 0 \<longrightarrow>
      (\<exists>w. parse_meshes_weights vertex_num weights_0 None = Some (Inr w)
          \<and> length w = length weights_0
          \<and> (\<forall>t. 4 * t + 4 \<le> length weights_0 \<longrightarrow>
                (let tup = take 4 (drop (4 * t) weights_0); tup' = take 4 (drop (4 * t) w) in
                 (sum_list tup > 0 \<longrightarrow> tup' = map (\<lambda>x. x / sum_list tup) tup \<and> sum_list tup' = 1)
                 \<and> (\<not> sum_list tup > 0 \<longrightarrow> tup' = tup))))) \<and>
   (length weights_0 = length weights_1 \<and> 4 * vertex_num \<le> length weights_0 \<longrightarrow>
      (\<exists>w. parse_meshes_weights vertex_num weights_0 (Some weights_1) = Some (Inr w)
          \<and> length w = 8 * vertex_num
          \<and> (\<forall>v<vertex_num.
                (let tup = take 4 (drop (4 * v) weights_0) @ take 4 (drop (4 * v) weights_1);
                     tup' = take 8 (drop (8 * v) w) in
                 (sum_list tup > 0 \<longrightarrow> tup' = map (\<lambda>x. x / sum_list tup) tup \<and> sum_list tup' = 1)
                 \<and> (\<not> sum_list tup > 0 \<longrightarrow> tup' = tup)))))"
proof (intro conjI impI)
  assume a: "length weights_0 mod 4 = 0"
  from normalize_weights_correct[of normalize_weights_4_from 4 weights_0] a
  obtain w where w: "normalize_weights_4_from 0 weights_0 = Some w" "length w = length weights_0"
    "\<And>t. 4 * t + 4 \<le> length weights_0 \<Longrightarrow>
       take 4 (drop (4 * t) w) = renorm_tuple (take 4 (drop (4 * t) weights_0))"
    by auto
  have "parse_meshes_weights vertex_num weights_0 None = Some (Inr w)"
    by (simp add: parse_meshes_weights_def w(1))
  moreover have "\<forall>t. 4 * t + 4 \<le> length weights_0 \<longrightarrow>
      (let tup = take 4 (drop (4 * t) weights_0); tup' = take 4 (drop (4 * t) w) in
       (sum_list tup > 0 \<longrightarrow> tup' = map (\<lambda>x. x / sum_list tup) tup \<and> sum_list tup' = 1)
       \<and> (\<not> sum_list tup > 0 \<longrightarrow> tup' = tup))"
  proof (intro allI impI)
    fix t assume t: "4 * t + 4 \<le> length weights_0"
    show "let tup = take 4 (drop (4 * t) weights_0); tup' = take 4 (drop (4 * t) w) in
       (sum_list tup > 0 \<longrightarrow> tup' = map (\<lambda>x. x / sum_list tup) tup \<and> sum_list tup' = 1)
       \<and> (\<not> sum_list tup > 0 \<longrightarrow> tup' = tup)"
      unfolding Let_def w(3)[OF t]
      using renorm_tuple_sum[of "take 4 (drop (4 * t) weights_0)"]
      by (auto simp: renorm_tuple_def)
  qed
  ultimately show "\<exists>w. parse_meshes_weights vertex_num weights_0 None = Some (Inr w)
          \<and> length w = length weights_0
          \<and> (\<forall>t. 4 * t + 4 \<le> length weights_0 \<longrightarrow>
                (let tup = take 4 (drop (4 * t) weights_0); tup' = take 4 (drop (4 * t) w) in
                 (sum_list tup > 0 \<longrightarrow> tup' = map (\<lambda>x. x / sum_list tup) tup \<and> sum_list tup' = 1)
                 \<and> (\<not> sum_list tup > 0 \<longrightarrow> tup' = tup)))"
    using w(2) by blast
next
  assume a: "length weights_0 = length weights_1 \<and> 4 * vertex_num \<le> length weights_0"
  from merge_weights_chunk[of weights_0 weights_1 vertex_num] a
  obtain ws where ws: "merge_weights_from 0 vertex_num weights_0 weights_1
        (replicate (vertex_num * 8) 0) = Some ws" "length ws = 8 * vertex_num"
    "\<And>v. v < vertex_num \<Longrightarrow> take 8 (drop (8 * v) ws)
        = take 4 (drop (4 * v) weights_0) @ take 4 (drop (4 * v) weights_1)"
    by auto
  from normalize_weights_correct[of normalize_weights_8_from 8 ws] ws(2)
  obtain w where w: "normalize_weights_8_from 0 ws = Some w" "length w = length ws"
    "\<And>t. 8 * t + 8 \<le> length ws \<Longrightarrow>
       take 8 (drop (8 * t) w) = renorm_tuple (take 8 (drop (8 * t) ws))"
    by auto
  have "parse_meshes_weights vertex_num weights_0 (Some weights_1) = Some (Inr w)"
    using a by (simp add: parse_meshes_weights_def ws(1) w(1))
  moreover have "\<forall>v<vertex_num.
      (let tup = take 4 (drop (4 * v) weights_0) @ take 4 (drop (4 * v) weights_1);
           tup' = take 8 (drop (8 * v) w) in
       (sum_list tup > 0 \<longrightarrow> tup' = map (\<lambda>x. x / sum_list tup) tup \<and> sum_list tup' = 1)
       \<and> (\<not> sum_list tup > 0 \<longrightarrow> tup' = tup))"
  proof (intro allI impI)
    fix v assume v: "v < vertex_num"
    then have "8 * v + 8 \<le> length ws" using ws(2) by simp
    from w(3)[OF this] ws(3)[OF v]
    have e: "take 8 (drop (8 * v) w)
        = renorm_tuple (take 4 (drop (4 * v) weights_0) @ take 4 (drop (4 * v) weights_1))"
      by simp
    show "let tup = take 4 (drop (4 * v) weights_0) @ take 4 (drop (4 * v) weights_1);
           tup' = take 8 (drop (8 * v) w) in
       (sum_list tup > 0 \<longrightarrow> tup' = map (\<lambda>x. x / sum_list tup) tup \<and> sum_list tup' = 1)
       \<and> (\<not> sum_list tup > 0 \<longrightarrow> tup' = tup)"
      unfolding Let_def e
      using renorm_tuple_sum[of "take 4 (drop (4 * v) weights_0) @ take 4 (drop (4 * v) weights_1)"]
      by (auto simp: renorm_tuple_def)
  qed
  ultimately show "\<exists>w. parse_meshes_weights vertex_num weights_0 (Some weights_1) = Some (Inr w)
          \<and> length w = 8 * vertex_num
          \<and> (\<forall>v<vertex_num.
                (let tup = take 4 (drop (4 * v) weights_0) @ take 4 (drop (4 * v) weights_1);
                     tup' = take 8 (drop (8 * v) w) in
                 (sum_list tup > 0 \<longrightarrow> tup' = map (\<lambda>x. x / sum_list tup) tup \<and> sum_list tup' = 1)
                 \<and> (\<not> sum_list tup > 0 \<longrightarrow> tup' = tup)))"
    using w(2) ws(2) by auto
qed

theorem weights_renormalized_witness:
  "length [1, 1, 2, 0, 0, 0, 0, 0 :: real] mod 4 = 0 \<and>
   parse_meshes_weights 2 [1, 1, 2, 0, 0, 0, 0, 0] None
     = Some (Inr [1 / 4, 1 / 4, 1 / 2, 0, 0, 0, 0, 0]) \<and>
   sum_list [1 / 4, 1 / 4, 1 / 2, 0 :: real] = 1 \<and>
   length [1, 1, 0, 0 :: real] = length [2, 0, 0, 0 :: real] \<and>
   4 * 1 \<le> length [1, 1, 0, 0 :: real] \<and>
   parse_meshes_weights 1 [1, 1, 0, 0] (Some [2, 0, 0, 0])
     = Some (Inr [1 / 4, 1 / 4, 0, 0, 1 / 2, 0, 0, 0]) \<and>
   sum_list [1 / 4, 1 / 4, 0, 0, 1 / 2, 0, 0, 0 :: real] = 1"
proof -
  have a: "parse_meshes_weights 2 [1, 1, 2, 0, 0, 0, 0, 0] None
     = Some (Inr [1 / 4, 1 / 4, 1 / 2, 0, 0, 0, 0, 0])"
    by (simp add: parse_meshes_weights_def normalize_weights_4_from.simps)
  have b: "parse_meshes_weights 1 [1, 1, 0, 0] (Some [2, 0, 0, 0])
     = Some (Inr [1 / 4, 1 / 4, 0, 0, 1 / 2, 0, 0, 0])"
    by (simp add: parse_meshes_weights_def merge_weights_from.simps
        normalize_weights_8_from.simps eval_nat_numeral)
  from weights_renormalized[of "[1, 1, 2, 0, 0, 0, 0, 0]" 2 "[2, 0, 0, 0]"]
  have c: "\<exists>w. parse_meshes_weights 2 [1, 1, 2, 0, 0, 0, 0, 0] None = Some (Inr w)" by auto
  from weights_renormalized[of "[1, 1, 0, 0]" 1 "[2, 0, 0, 0]"]
  have "\<exists>w. parse_meshes_weights 1 [1, 1, 0, 0] (Some [2, 0, 0, 0]) = Some (Inr w)" by auto
  with a b c show ?thesis by simp
qed

subsection \<open>Animation tracks\<close>

lemma bezier_at_0: "bezier start control_1 control_2 end' 0 = start"
  by (simp add: bezier_def)

lemma bake_times_ends:
  "increment > 0 \<Longrightarrow> anim_end - time \<le> real k * increment \<Longrightarrow>
   \<exists>ts. bake_times (k + 2) increment anim_end time False = Some ts
        \<and> ts \<noteq> [] \<and> hd ts = time \<and> last ts = anim_end"
proof (induction k arbitrary: time)
  case 0
  then have "time + increment \<ge> anim_end" by simp
  then show ?case by (simp add: eval_nat_numeral)
next
  case (Suc k)
  show ?case
  proof (cases "time + increment \<ge> anim_end")
    case True
    then show ?thesis by (simp add: eval_nat_numeral)
  next
    case False
    have "anim_end - (time + increment) \<le> real k * increment"
      using Suc.prems(2) by (simp add: algebra_simps)
    from Suc.IH[OF Suc.prems(1) this] obtain ts where
      ts: "bake_times (k + 2) increment anim_end (time + increment) False = Some ts"
        "ts \<noteq> []" "last ts = anim_end"
      by blast
    have "bake_times (Suc k + 2) increment anim_end time False = Some (time # ts)"
      using False ts(1) by (simp add: Let_def)
    then show ?thesis using ts(2,3) by simp
  qed
qed

lemma bake_times_returns:
  assumes "increment > 0"
  shows "\<exists>n ts. bake_times n increment anim_end anim_start False = Some ts
           \<and> ts \<noteq> [] \<and> hd ts = anim_start \<and> last ts = anim_end"
proof -
  obtain k :: nat where k: "(anim_end - anim_start) / increment \<le> real k"
    using real_arch_simple by blast
  then have "anim_end - anim_start \<le> real k * increment"
    using assms by (simp add: pos_divide_le_eq)
  from bake_times_ends[OF assms this] show ?thesis by blast
qed

lemma cubic_two_keys_before:
  fixes p_values :: "('a::real_vector) list"
  assumes "t0 < t1" "length p_values = 6" "p_time \<le> t0"
  shows "interpolate_track [t0, t1] p_values p_time INTERP_CUBIC_SPLINE = Sample (p_values ! 1)"
proof (cases "p_time < t0")
  case True
  then show ?thesis using assms
    by (simp add: interpolate_track_def values_correspond_def sample_of_def vget_def)
next
  case False
  then have e: "p_time = t0" using assms(3) by simp
  have v: "vget p_values 1 = Some (p_values ! 1)" "vget p_values 2 = Some (p_values ! 2)"
    "vget p_values 3 = Some (p_values ! 3)" "vget p_values 4 = Some (p_values ! 4)"
    using assms(2) by (simp_all add: vget_def)
  show ?thesis using assms(1,2)
    by (simp add: interpolate_track_def values_correspond_def sample_of_def e v bezier_at_0)
qed

lemma cubic_two_keys_after:
  fixes p_values :: "('a::real_vector) list"
  assumes "t0 < t1" "length p_values = 6" "t1 \<le> p_time"
  shows "interpolate_track [t0, t1] p_values p_time INTERP_CUBIC_SPLINE = Sample (p_values ! 4)"
  using assms
  by (simp add: interpolate_track_def values_correspond_def sample_of_def vget_def)

text \<open>
  C9. A \<^verbatim>\<open>CUBICSPLINE\<close> channel with two keys at times \<open>t0 < t1\<close> holds six values; the
  centre values are \<open>p_values ! 1\<close> and \<open>p_values ! 4\<close>. Sampling at or before \<open>t0\<close> returns
  the first centre value, sampling at or after \<open>t1\<close> the last. The bake loop, run with a
  positive increment from a start time at or before \<open>t0\<close> to an end time at or after \<open>t1\<close>,
  returns; its first sample is the first centre value and its last sample the last centre
  value.
\<close>

theorem cubic_spline_bake_endpoints:
  fixes p_values :: "('a::real_vector) list"
  assumes "t0 < t1" and "length p_values = 6"
  shows "(p_time \<le> t0 \<longrightarrow>
            interpolate_track [t0, t1] p_values p_time INTERP_CUBIC_SPLINE = Sample (p_values ! 1))
       \<and> (t1 \<le> p_time \<longrightarrow>
            interpolate_track [t0, t1] p_values p_time INTERP_CUBIC_SPLINE = Sample (p_values ! 4))
       \<and> (increment > 0 \<and> anim_start \<le> t0 \<and> t1 \<le> anim_end \<longrightarrow>
            (\<exists>n ts. bake_times n increment anim_end anim_start False = Some ts \<and> ts \<noteq> []
               \<and> interpolate_track [t0, t1] p_values (hd ts) INTERP_CUBIC_SPLINE
                    = Sample (p_values ! 1)
               \<and> interpolate_track [t0, t1] p_values (last ts) INTERP_CUBIC_SPLINE
                    = Sample (p_values ! 4)))"
proof (intro conjI impI)
  assume "p_time \<le> t0"
  then show "interpolate_track [t0, t1] p_values p_time INTERP_CUBIC_SPLINE = Sample (p_values ! 1)"
    using assms by (rule cubic_two_keys_before[rotated 2])
next
  assume "t1 \<le> p_time"
  then show "interpolate_track [t0, t1] p_values p_time INTERP_CUBIC_SPLINE = Sample (p_values ! 4)"
    using assms by (rule cubic_two_keys_after[rotated 2])
next
  assume a: "increment > 0 \<and> anim_start \<le> t0 \<and> t1 \<le> anim_end"
  from bake_times_returns[of increment anim_end anim_start] a obtain n ts where
    ts: "bake_times n increment anim_end anim_start False = Some ts" "ts \<noteq> []"
      "hd ts = anim_start" "last ts = anim_end"
    by blast
  have "interpolate_track [t0, t1] p_values (hd ts) INTERP_CUBIC_SPLINE = Sample (p_values ! 1)"
    using cubic_two_keys_before[OF assms, of "hd ts"] a ts(3) by simp
  moreover have "interpolate_track [t0, t1] p_values (last ts) INTERP_CUBIC_SPLINE
      = Sample (p_values ! 4)"
    using cubic_two_keys_after[OF assms, of "last ts"] a ts(4) by simp
  ultimately show "\<exists>n ts. bake_times n increment anim_end anim_start False = Some ts \<and> ts \<noteq> []
               \<and> interpolate_track [t0, t1] p_values (hd ts) INTERP_CUBIC_SPLINE
                    = Sample (p_values ! 1)
               \<and> interpolate_track [t0, t1] p_values (last ts) INTERP_CUBIC_SPLINE
                    = Sample (p_values ! 4)"
    using ts(1,2) by blast
qed

theorem cubic_spline_bake_endpoints_witness:
  "(0 :: real) < 1 \<and> length [10, 20, 30, 40, 50, 60 :: real] = 6 \<and>
   interpolate_track [0, 1] [10, 20, 30, 40, 50, 60 :: real] 0 INTERP_CUBIC_SPLINE = Sample 20 \<and>
   interpolate_track [0, 1] [10, 20, 30, 40, 50, 60 :: real] 1 INTERP_CUBIC_SPLINE = Sample 50 \<and>
   bake_times 4 (1 / 2) 1 0 False = Some [0, 1 / 2, 1]"
proof -
  have "bake_times 4 (1 / 2) 1 0 False = Some [0, 1 / 2, 1]"
    by (simp add: eval_nat_numeral)
  then show ?thesis
    using cubic_spline_bake_endpoints[of 0 1 "[10, 20, 30, 40, 50, 60 :: real]" 0 "1 / 2" 0 1]
      cubic_spline_bake_endpoints[of 0 1 "[10, 20, 30, 40, 50, 60 :: real]" 1 "1 / 2" 0 1]
    by simp
qed

text \<open>
  C4. The sampler divides the number of values by 3 only for \<^verbatim>\<open>INTERP_CUBIC_SPLINE\<close>. A
  \<^verbatim>\<open>CATMULLROMSPLINE\<close> channel with three values per key is reported as not corresponding
  and answered with its first value; with one value per key it passes the test and is then
  read out of range. For \<^verbatim>\<open>INTERP_CUBIC_SPLINE\<close> the integer division also lets through
  value counts that are not three times the number of keys.
\<close>

theorem catmull_rom_triplets_not_sampled:
  "length [10, 20, 30, 40, 50, 60 :: real] = 3 * length [0, 1 :: real] \<and>
   \<not> values_correspond [0, 1] [10, 20, 30, 40, 50, 60 :: real] INTERP_CATMULLROMSPLINE \<and>
   interpolate_track [0, 1] [10, 20, 30, 40, 50, 60 :: real] 0 INTERP_CATMULLROMSPLINE
     = Not_Corresponding 10 \<and>
   values_correspond [0, 1] [10, 20 :: real] INTERP_CATMULLROMSPLINE \<and>
   interpolate_track [0, 1] [10, 20 :: real] 1 INTERP_CATMULLROMSPLINE = Bad_Index \<and>
   values_correspond [0, 1] [10, 20, 30, 40, 50, 60, 70 :: real] INTERP_CUBIC_SPLINE \<and>
   interpolate_track [0, 1] [10, 20, 30, 40, 50, 60, 70 :: real] 1 INTERP_CUBIC_SPLINE = Sample 50"
  by (simp add: interpolate_track_def values_correspond_def sample_of_def vget_def)

subsection \<open>Machine integers and loops\<close>

lemma i32_id: "- (2 ^ 31) \<le> x \<Longrightarrow> x < 2 ^ 31 \<Longrightarrow> i32 x = x"
  by (simp add: i32_def)

lemma u32_id: "0 \<le> x \<Longrightarrow> x < 2 ^ 32 \<Longrightarrow> u32 x = x"
  by (simp add: u32_def)

lemma c_rem_nonneg: "0 \<le> a \<Longrightarrow> 0 < b \<Longrightarrow> c_rem a b = a mod b"
  by (cases "a = 0") (simp_all add: c_rem_def)

lemma for_each_append:
  "for_each body (xs @ ys) s
     = (case for_each body xs s of None \<Rightarrow> None | Some s' \<Rightarrow> for_each body ys s')"
  by (induction xs arbitrary: s) (auto split: option.splits)

lemma for_each_upt_Suc:
  "for_each body [0..<Suc n] s
     = (case for_each body [0..<n] s of None \<Rightarrow> None | Some s' \<Rightarrow> body n s')"
  by (simp add: for_each_append split: option.splits)

lemma component_size_cases:
  "get_component_type_size ct \<noteq> 0 \<longleftrightarrow>
     ct \<in> {COMPONENT_TYPE_BYTE, COMPONENT_TYPE_UNSIGNED_BYTE, COMPONENT_TYPE_SHORT,
            COMPONENT_TYPE_UNSIGNED_SHORT, COMPONENT_TYPE_INT, COMPONENT_TYPE_FLOAT}"
  by (auto simp: get_component_type_size_def)

lemma component_count_pos: "0 < component_count_for_type t"
  by (cases t) simp_all

subsection \<open>An accessor without a buffer view\<close>

text \<open>
  C10. For an accessor of the state with one of the six component types and a count whose
  product with the component count 32-bit arithmetic computes without overflow, with no
  buffer view (a negative index) and no sparse data, \<^verbatim>\<open>_decode_accessor\<close> returns
  \<^verbatim>\<open>count * component_count\<close> zeros.
\<close>

theorem decode_accessor_without_view_zeros:
  assumes "0 \<le> p_accessor" and "p_accessor < int (length (accessors p_state))"
    and "a = accessors p_state ! nat p_accessor"
    and "a_component_type a \<in> {COMPONENT_TYPE_BYTE, COMPONENT_TYPE_UNSIGNED_BYTE,
           COMPONENT_TYPE_SHORT, COMPONENT_TYPE_UNSIGNED_SHORT, COMPONENT_TYPE_INT,
           COMPONENT_TYPE_FLOAT}"
    and "fits_i32 (a_count a * component_count_for_type (a_type a))"
    and "a_buffer_view a < 0" and "a_sparse_count a = 0"
  shows "decode_accessor p_state p_accessor p_for_vertex
           = Some (replicate (nat (a_count a * component_count_for_type (a_type a))) 0)"
proof -
  have sz: "get_component_type_size (a_component_type a) \<noteq> 0"
    using assms(4) component_size_cases by blast
  obtain se sb es where al: "decode_alignment (a_component_type a) (a_type a)
      (component_count_for_type (a_type a) * get_component_type_size (a_component_type a))
      = (se, sb, es)"
    by (cases "decode_alignment (a_component_type a) (a_type a)
      (component_count_for_type (a_type a) * get_component_type_size (a_component_type a))") auto
  have fit: "i32 (a_count a * component_count_for_type (a_type a))
      = a_count a * component_count_for_type (a_type a)"
    using assms(5) by (intro i32_id) (simp_all add: fits_i32_def)
  show ?thesis
    using assms(1,2,6,7) sz al
    by (simp add: decode_accessor_def assms(3)[symmetric] Let_def fit)
qed

theorem decode_accessor_without_view_zeros_witness:
  "decode_accessor \<lparr>buffers = [], buffer_views = [], accessors = [example_accessor]\<rparr> 0 True
     = Some [0, 0, 0, 0, 0, 0]"
  using decode_accessor_without_view_zeros[of 0
      "\<lparr>buffers = [], buffer_views = [], accessors = [example_accessor]\<rparr>" example_accessor True]
  by (simp add: example_accessor_def eval_nat_numeral fits_i32_def)

subsection \<open>Components and their bytes\<close>

lemma length_le_bytes [simp]: "length (le_bytes n v) = n"
  by (induction n arbitrary: v) simp_all

lemma le_uint_le_bytes: "le_uint (le_bytes n v) = v mod 256 ^ n"
proof (induction n arbitrary: v)
  case 0
  then show ?case by simp
next
  case (Suc n)
  have "uint (word_of_int v :: byte) = v mod 256"
    by (simp add: uint_word_of_int)
  then have "le_uint (le_bytes (Suc n) v) = v mod 256 + 256 * ((v div 256) mod 256 ^ n)"
    using Suc.IH by simp
  also have "\<dots> = v mod (256 * 256 ^ n)"
    using zmod_zmult2_eq[of "256 ^ n" v 256] by simp
  finally show ?case by simp
qed

lemma le_uint_le_bytes_id: "0 \<le> v \<Longrightarrow> v < 256 ^ n \<Longrightarrow> le_uint (le_bytes n v) = v"
  by (simp add: le_uint_le_bytes)

lemma le_sint_le_bytes_id:
  assumes "- (256 ^ n) \<le> 2 * v" and "2 * v < 256 ^ n"
  shows "le_sint (le_bytes n v) = v"
proof (cases "0 \<le> v")
  case True
  then have "v mod 256 ^ n = v" using assms(2) by simp
  then show ?thesis using assms(2) by (simp add: le_sint_def le_uint_le_bytes)
next
  case False
  have "(v + 256 ^ n) mod 256 ^ n = v + 256 ^ n"
    using False assms(1) by (intro mod_pos_pos_trivial) auto
  then have "v mod 256 ^ n = v + 256 ^ n" by simp
  then show ?thesis using False assms(1) by (simp add: le_sint_def le_uint_le_bytes Let_def)
qed

lemma c_trunc_of_int [simp]: "c_trunc (of_int z) = z"
  by (simp add: c_trunc_def)

lemma c_trunc_nonneg: "0 \<le> d \<Longrightarrow> 0 \<le> c_trunc d \<and> of_int (c_trunc d) \<le> d \<and> d < of_int (c_trunc d) + 1"
  by (simp add: c_trunc_def) (linarith+)?

lemma c_trunc_neg: "d < 0 \<Longrightarrow> c_trunc d \<le> 0 \<and> d \<le> of_int (c_trunc d) \<and> of_int (c_trunc d) < d + 1"
  by (simp add: c_trunc_def) (linarith+)?

lemma encode_component_stored:
  "storable ct nm d \<Longrightarrow> encode_component ct nm d = Some (stored_bytes ct nm d)"
  by (auto simp: storable_def stored_bytes_def)

lemma length_encode_component:
  "storable ct nm d \<Longrightarrow> length (stored_bytes ct nm d) = nat (get_component_type_size ct)"
  by (auto simp: storable_def stored_bytes_def encode_component_def narrow_def Let_def
      get_component_type_size_def COMPONENT_TYPE_BYTE_def
      COMPONENT_TYPE_UNSIGNED_BYTE_def COMPONENT_TYPE_SHORT_def COMPONENT_TYPE_UNSIGNED_SHORT_def
      COMPONENT_TYPE_INT_def COMPONENT_TYPE_FLOAT_def split: if_splits)

lemmas component_type_defs =
  COMPONENT_TYPE_BYTE_def COMPONENT_TYPE_UNSIGNED_BYTE_def COMPONENT_TYPE_SHORT_def
  COMPONENT_TYPE_UNSIGNED_SHORT_def COMPONENT_TYPE_INT_def COMPONENT_TYPE_FLOAT_def

lemma round_half_even_nonneg: "0 \<le> x \<Longrightarrow> 0 \<le> round_half_even x"
  by (simp add: round_half_even_def Let_def) (linarith+)?

lemma float32_bits_range: "0 \<le> float32_bits d \<and> float32_bits d < 2 ^ 32"
proof -
  define x where "x = \<bar>d\<bar> * 2 ^ 149"
  define q where "q = binade 254 x 0"
  define mag where "mag = min (int q * 2 ^ 23 + round_half_even (x / 2 ^ q)) (255 * 2 ^ 23)"
  have "0 \<le> x / 2 ^ q" by (simp add: x_def)
  then have "0 \<le> round_half_even (x / 2 ^ q)" by (rule round_half_even_nonneg)
  then have "0 \<le> mag" "mag \<le> 255 * 2 ^ 23" by (simp_all add: mag_def)
  moreover have "float32_bits d = (if d < 0 then 2 ^ 31 else 0) + mag"
    by (simp add: float32_bits_def Let_def mag_def q_def x_def)
  ultimately show ?thesis by auto
qed

lemma exact_value_round_trip:
  assumes "exact_value ct nm d"
  shows "storable ct nm d \<and> decode_component ct nm (stored_bytes ct nm d) = d"
proof (cases "ct = COMPONENT_TYPE_FLOAT")
  case True
  have "le_uint (le_bytes 4 (float32_bits d)) = float32_bits d"
    using float32_bits_range[of d] by (intro le_uint_le_bytes_id) auto
  then show ?thesis using True assms
    by (simp add: exact_value_def decode_component_def encode_component_def narrow_def storable_def stored_bytes_def component_type_defs)
next
  case False
  define z where "z = c_trunc d"
  have d: "d = of_int z" and lo: "fst (component_range ct) \<le> z" and hi: "z \<le> snd (component_range ct)"
    and nm: "\<not> nm \<or> ct = COMPONENT_TYPE_INT"
    using assms False by (simp_all add: exact_value_def z_def)
  have ct: "ct \<in> {COMPONENT_TYPE_BYTE, COMPONENT_TYPE_UNSIGNED_BYTE, COMPONENT_TYPE_SHORT,
            COMPONENT_TYPE_UNSIGNED_SHORT, COMPONENT_TYPE_INT}"
    using lo hi by (auto simp: component_range_def split: if_splits)
  have s1: "le_sint (le_bytes 1 z) = z" if "-128 \<le> z" "z \<le> 127"
    using that by (intro le_sint_le_bytes_id) auto
  have u1: "le_uint (le_bytes 1 z) = z" if "0 \<le> z" "z \<le> 255"
    using that by (intro le_uint_le_bytes_id) auto
  have s2: "le_sint (le_bytes 2 z) = z" if "-32768 \<le> z" "z \<le> 32767"
    using that by (intro le_sint_le_bytes_id) auto
  have u2: "le_uint (le_bytes 2 z) = z" if "0 \<le> z" "z \<le> 65535"
    using that by (intro le_uint_le_bytes_id) auto
  have s4: "le_sint (le_bytes 4 z) = z" if "-2147483648 \<le> z" "z \<le> 2147483647"
    using that by (intro le_sint_le_bytes_id) auto
  from ct consider "ct = COMPONENT_TYPE_BYTE" | "ct = COMPONENT_TYPE_UNSIGNED_BYTE"
    | "ct = COMPONENT_TYPE_SHORT" | "ct = COMPONENT_TYPE_UNSIGNED_SHORT" | "ct = COMPONENT_TYPE_INT"
    by auto
  then show ?thesis
  proof cases
    case 1
    then show ?thesis using nm lo hi s1
      by (simp add: d decode_component_def encode_component_def narrow_def storable_def stored_bytes_def component_range_def component_type_defs)
  next
    case 2
    then show ?thesis using nm lo hi u1
      by (simp add: d decode_component_def encode_component_def narrow_def storable_def stored_bytes_def component_range_def component_type_defs)
  next
    case 3
    then show ?thesis using nm lo hi s2
      by (simp add: d decode_component_def encode_component_def narrow_def storable_def stored_bytes_def component_range_def component_type_defs)
  next
    case 4
    then show ?thesis using nm lo hi u2
      by (simp add: d decode_component_def encode_component_def narrow_def storable_def stored_bytes_def component_range_def component_type_defs)
  next
    case 5
    then show ?thesis using lo hi s4
      by (simp add: d decode_component_def encode_component_def narrow_def storable_def stored_bytes_def component_range_def component_type_defs)
  qed
qed

lemma trunc_scaled_error:
  fixes d :: real
  assumes "0 < s" and "lo \<le> c_trunc (d * s)" "c_trunc (d * s) \<le> hi"
  shows "\<bar>of_int (c_trunc (d * s)) / s - d\<bar> < 1 / s"
proof -
  have "\<bar>of_int (c_trunc (d * s)) - d * s\<bar> < 1"
    using c_trunc_nonneg[of "d * s"] c_trunc_neg[of "d * s"] by (cases "d * s < 0") auto
  then have "\<bar>of_int (c_trunc (d * s)) - d * s\<bar> / s < 1 / s"
    using assms(1) by (simp add: divide_strict_right_mono)
  moreover have "of_int (c_trunc (d * s)) / s - d = (of_int (c_trunc (d * s)) - d * s) / s"
    using assms(1) by (simp add: field_simps)
  then have "\<bar>of_int (c_trunc (d * s)) - d * s\<bar> / s = \<bar>of_int (c_trunc (d * s)) / s - d\<bar>"
    using assms(1) by simp
  ultimately show ?thesis by simp
qed

lemma c_trunc_bounds:
  fixes x :: real
  assumes "of_int lo \<le> x" "x \<le> of_int hi" "lo \<le> 0" "0 \<le> hi"
  shows "lo \<le> c_trunc x \<and> c_trunc x \<le> hi"
proof (cases "x < 0")
  case True
  then have "c_trunc x = \<lceil>x\<rceil>" by (simp add: c_trunc_def)
  moreover have "lo \<le> \<lceil>x\<rceil>" using assms(1) by (simp add: le_ceiling_iff)
  moreover have "\<lceil>x\<rceil> \<le> 0" using True by (simp add: ceiling_le_iff)
  ultimately show ?thesis using assms(4) by linarith
next
  case False
  then have "c_trunc x = \<lfloor>x\<rfloor>" by (simp add: c_trunc_def)
  moreover have "\<lfloor>x\<rfloor> \<le> hi" using assms(2) by (simp add: floor_le_iff) (linarith+)?
  moreover have "0 \<le> \<lfloor>x\<rfloor>" using False by simp
  ultimately show ?thesis using assms(3) by linarith
qed

lemma quantized_value_round_trip:
  assumes "quantized_value ct nm d"
  shows "storable ct nm d \<and> \<bar>decode_component ct nm (stored_bytes ct nm d) - d\<bar> < 1 / max_magnitude ct"
proof -
  have nm: nm using assms by (simp add: quantized_value_def)
  from assms consider
      (b) "ct = COMPONENT_TYPE_BYTE" "-1 \<le> d" "d < 1"
    | (s) "ct = COMPONENT_TYPE_SHORT" "-1 \<le> d" "d < 1"
    | (ub) "ct = COMPONENT_TYPE_UNSIGNED_BYTE" "0 \<le> d" "d \<le> 1"
    | (us) "ct = COMPONENT_TYPE_UNSIGNED_SHORT" "0 \<le> d" "d \<le> 1"
    by (auto simp: quantized_value_def)
  then show ?thesis
  proof cases
    case b
    have r: "-128 \<le> c_trunc (d * 128) \<and> c_trunc (d * 128) \<le> 127"
    proof -
      have "-128 \<le> c_trunc (d * 128) \<and> c_trunc (d * 128) \<le> 128"
        using b c_trunc_bounds[of "-128" "d * 128" 128] by simp
      moreover have "c_trunc (d * 128) \<noteq> 128"
        using b c_trunc_nonneg[of "d * 128"] c_trunc_neg[of "d * 128"]
        by (cases "d * 128 < 0") auto
      ultimately show ?thesis by simp
    qed
    then have "le_sint (le_bytes 1 (c_trunc (d * 128))) = c_trunc (d * 128)"
      by (intro le_sint_le_bytes_id) auto
    then show ?thesis
      using trunc_scaled_error[of 128 "-128" d 127] r nm b(1)
      by (simp add: decode_component_def encode_component_def narrow_def storable_def stored_bytes_def max_magnitude_def component_type_defs)
  next
    case s
    have r: "-32768 \<le> c_trunc (d * 32768) \<and> c_trunc (d * 32768) \<le> 32767"
    proof -
      have "-32768 \<le> c_trunc (d * 32768) \<and> c_trunc (d * 32768) \<le> 32768"
        using s c_trunc_bounds[of "-32768" "d * 32768" 32768] by simp
      moreover have "c_trunc (d * 32768) \<noteq> 32768"
        using s c_trunc_nonneg[of "d * 32768"] c_trunc_neg[of "d * 32768"]
        by (cases "d * 32768 < 0") auto
      ultimately show ?thesis by simp
    qed
    then have "le_sint (le_bytes 2 (c_trunc (d * 32768))) = c_trunc (d * 32768)"
      by (intro le_sint_le_bytes_id) auto
    then show ?thesis
      using trunc_scaled_error[of 32768 "-32768" d 32767] r nm s(1)
      by (simp add: decode_component_def encode_component_def narrow_def storable_def stored_bytes_def max_magnitude_def component_type_defs)
  next
    case ub
    have r: "0 \<le> c_trunc (d * 255) \<and> c_trunc (d * 255) \<le> 255"
      using ub c_trunc_bounds[of 0 "d * 255" 255] by simp
    then have "le_uint (le_bytes 1 (c_trunc (d * 255))) = c_trunc (d * 255)"
      by (intro le_uint_le_bytes_id) auto
    then show ?thesis
      using trunc_scaled_error[of 255 0 d 255] r nm ub(1)
      by (simp add: decode_component_def encode_component_def narrow_def storable_def stored_bytes_def max_magnitude_def component_type_defs)
  next
    case us
    have r: "0 \<le> c_trunc (d * 65535) \<and> c_trunc (d * 65535) \<le> 65535"
      using us c_trunc_bounds[of 0 "d * 65535" 65535] by simp
    then have "le_uint (le_bytes 2 (c_trunc (d * 65535))) = c_trunc (d * 65535)"
      by (intro le_uint_le_bytes_id) auto
    then show ?thesis
      using trunc_scaled_error[of 65535 0 d 65535] r nm us(1)
      by (simp add: decode_component_def encode_component_def narrow_def storable_def stored_bytes_def max_magnitude_def component_type_defs)
  qed
qed

subsection \<open>The loops of the encoder and of the decoder\<close>

lemma encode_row:
  assumes "length P = d0" and "m \<le> length R" and "m \<le> length S"
    and ok: "\<forall>d \<in> set S. storable ct nm d"
  shows "for_each (encode_step ct nm 0 sb) [0..<m] (d0, P @ R, S)
           = Some (d0 + m, P @ map (stored_bytes ct nm) (take m S) @ drop m R, drop m S)"
  using assms(2,3)
proof (induction m)
  case 0
  then show ?case by simp
next
  case (Suc m)
  have m: "m < length R" "m < length S" using Suc.prems by auto
  have ih: "for_each (encode_step ct nm 0 sb) [0..<m] (d0, P @ R, S)
           = Some (d0 + m, P @ map (stored_bytes ct nm) (take m S) @ drop m R, drop m S)"
    using Suc.IH m by simp
  have dS: "drop m S = S ! m # drop (Suc m) S" using m(2) by (simp add: Cons_nth_drop_Suc)
  have dR: "drop m R = R ! m # drop (Suc m) R" using m(1) by (simp add: Cons_nth_drop_Suc)
  let ?Q = "P @ map (stored_bytes ct nm) (take m S)"
  have lQ: "length ?Q = d0 + m" using assms(1) m(2) by simp
  have upd: "(?Q @ drop m R)[d0 + m := x] = ?Q @ x # drop (Suc m) R" for x
    unfolding dR using lQ by (metis list_update_length)
  have step: "encode_step ct nm 0 sb m (d0 + m, ?Q @ drop m R, drop m S)
      = Some (d0 + Suc m, ?Q @ stored_bytes ct nm (S ! m) # drop (Suc m) R, drop (Suc m) S)"
    using upd[of "stored_bytes ct nm (S ! m)"] lQ m(1) ok m(2)
    by (simp add: encode_step_def dS encode_component_stored)
  have "?Q @ stored_bytes ct nm (S ! m) # drop (Suc m) R
      = P @ map (stored_bytes ct nm) (take (Suc m) S) @ drop (Suc m) R"
    using m(2) by (simp add: take_Suc_conv_app_nth)
  then show ?case
    unfolding for_each_upt_Suc ih using step by simp
qed

lemma encode_rows:
  assumes "n * cc \<le> length B0" and "n * cc \<le> length S"
    and ok: "\<forall>d \<in> set S. storable ct nm d"
  shows "for_each (\<lambda>i. for_each (encode_step ct nm 0 sb) [0..<cc]) [0..<n] (0, B0, S)
           = Some (n * cc, map (stored_bytes ct nm) (take (n * cc) S) @ drop (n * cc) B0,
                   drop (n * cc) S)"
  using assms(1,2)
proof (induction n)
  case 0
  then show ?case by simp
next
  case (Suc n)
  have le: "n * cc \<le> length B0" "n * cc \<le> length S" using Suc.prems by auto
  have ih: "for_each (\<lambda>i. for_each (encode_step ct nm 0 sb) [0..<cc]) [0..<n] (0, B0, S)
           = Some (n * cc, map (stored_bytes ct nm) (take (n * cc) S) @ drop (n * cc) B0,
                   drop (n * cc) S)"
    using Suc.IH le by simp
  have row: "for_each (encode_step ct nm 0 sb) [0..<cc]
        (n * cc, map (stored_bytes ct nm) (take (n * cc) S) @ drop (n * cc) B0, drop (n * cc) S)
      = Some (n * cc + cc,
              map (stored_bytes ct nm) (take (n * cc) S)
                @ map (stored_bytes ct nm) (take cc (drop (n * cc) S))
                @ drop cc (drop (n * cc) B0),
              drop cc (drop (n * cc) S))"
  proof (rule encode_row)
    show "length (map (stored_bytes ct nm) (take (n * cc) S)) = n * cc" using le by simp
    show "cc \<le> length (drop (n * cc) B0)" using Suc.prems by simp
    show "cc \<le> length (drop (n * cc) S)" using Suc.prems by simp
    show "\<forall>d \<in> set (drop (n * cc) S). storable ct nm d"
      using ok by (meson in_set_dropD)
  qed
  have "map (stored_bytes ct nm) (take (n * cc) S)
          @ map (stored_bytes ct nm) (take cc (drop (n * cc) S))
      = map (stored_bytes ct nm) (take (Suc n * cc) S)"
  proof -
    have "take (Suc n * cc) S = take (n * cc + cc) S" by (simp add: add.commute)
    then show ?thesis by (simp only: take_add map_append)
  qed
  then show ?case
    unfolding for_each_upt_Suc ih using row by (simp add: add.commute)
qed

lemma encode_elements_plain:
  assumes "length S = n * cc" and "\<forall>d \<in> set S. storable ct nm d"
  shows "encode_elements ct nm 0 sb n cc (0, replicate (n * cc) z, S)
           = Some (n * cc, map (stored_bytes ct nm) S, [])"
  using encode_rows[of n cc "replicate (n * cc) z" S ct nm sb] assms
  by (simp add: encode_elements_def)

lemma skip_amount:
  assumes "0 < se"
  shows "(if m = 0 then 0 else sb * (int (m - 1) div se))
           + (if m > 0 \<and> int m mod se = 0 then sb else 0)
         = sb * (int m div se)"
proof (cases m)
  case 0
  then show ?thesis by simp
next
  case (Suc k)
  define s where "s = nat se"
  have s: "se = int s" "0 < s" using assms by (simp_all add: s_def)
  have d: "int j div se = int (j div s)" and r: "int j mod se = int (j mod s)" for j
    by (simp_all add: s(1) zdiv_int zmod_int)
  have "Suc k div s = (if Suc k mod s = 0 then Suc (k div s) else k div s)"
    by (rule div_Suc)
  then show ?thesis
    unfolding d r Suc by (simp add: algebra_simps)
qed

lemma decode_step_position:
  assumes "0 \<le> se"
  shows "(p0 + int m * cs + (if se = 0 \<or> m = 0 then 0 else sb * (int (m - 1) div se)))
           + (if se \<noteq> 0 \<and> m > 0 \<and> c_rem (int m) se = 0 then sb else 0)
         = p0 + component_position se sb cs m"
proof (cases "se = 0")
  case True
  then show ?thesis by (simp add: component_position_def)
next
  case False
  then have se: "0 < se" using assms by simp
  have c: "c_rem (int m) se = int m mod se" using se by (simp add: c_rem_nonneg)
  show ?thesis
    using skip_amount[OF se, of m sb] False
    by (auto simp: component_position_def c split: if_splits)
qed

lemma decode_row:
  assumes "0 \<le> se"
    and "\<forall>j<m. 0 \<le> p0 + component_position se sb cs j
            \<and> p0 + component_position se sb cs j + get_component_type_size ct
                 \<le> int (length buffer)"
  shows "for_each (decode_step buffer ct nm se sb cs) [0..<m] (p0, D)
           = Some (p0 + int m * cs + (if se = 0 \<or> m = 0 then 0 else sb * (int (m - 1) div se)),
                   D @ map (\<lambda>j. decode_component ct nm
                                   (take (nat (get_component_type_size ct))
                                      (drop (nat (p0 + component_position se sb cs j)) buffer)))
                         [0..<m])"
  using assms(2)
proof (induction m)
  case 0
  then show ?case by simp
next
  case (Suc m)
  let ?f = "\<lambda>j. decode_component ct nm
                (take (nat (get_component_type_size ct))
                   (drop (nat (p0 + component_position se sb cs j)) buffer))"
  let ?src = "p0 + int m * cs + (if se = 0 \<or> m = 0 then 0 else sb * (int (m - 1) div se))"
  have ih: "for_each (decode_step buffer ct nm se sb cs) [0..<m] (p0, D)
      = Some (?src, D @ map ?f [0..<m])"
    using Suc.IH Suc.prems by simp
  have inb: "0 \<le> p0 + component_position se sb cs m"
    "p0 + component_position se sb cs m + get_component_type_size ct \<le> int (length buffer)"
    using Suc.prems by auto
  have pos: "?src + (if se \<noteq> 0 \<and> m > 0 \<and> c_rem (int m) se = 0 then sb else 0)
      = p0 + component_position se sb cs m"
    by (rule decode_step_position[OF assms(1)])
  have nxt: "p0 + component_position se sb cs m + cs
      = p0 + int (Suc m) * cs + (if se = 0 \<or> Suc m = 0 then 0 else sb * (int (Suc m - 1) div se))"
    by (simp add: component_position_def algebra_simps)
  have step: "decode_step buffer ct nm se sb cs m (?src, D @ map ?f [0..<m])
      = Some (p0 + component_position se sb cs m + cs, (D @ map ?f [0..<m]) @ [?f m])"
  proof -
    define s' where "s' = ?src + (if se \<noteq> 0 \<and> m > 0 \<and> c_rem (int m) se = 0 then sb else 0)"
    have "decode_step buffer ct nm se sb cs m (?src, D @ map ?f [0..<m])
        = (if 0 \<le> s' \<and> s' + get_component_type_size ct \<le> int (length buffer)
           then Some (s' + cs, (D @ map ?f [0..<m])
                  @ [decode_component ct nm
                       (take (nat (get_component_type_size ct)) (drop (nat s') buffer))])
           else None)"
      by (simp add: decode_step_def Let_def s'_def)
    moreover have "s' = p0 + component_position se sb cs m"
      unfolding s'_def by (rule pos)
    ultimately show ?thesis using inb by simp
  qed
  show ?case
    unfolding for_each_upt_Suc ih option.case step nxt by simp
qed

lemma decode_rows:
  assumes "0 \<le> se"
    and "\<forall>i<n. \<forall>j<cc. 0 \<le> pos i + component_position se sb cs j
            \<and> pos i + component_position se sb cs j + get_component_type_size ct
                 \<le> int (length buffer)"
  shows "for_each
           (\<lambda>i dst. map_option snd
              (for_each (decode_step buffer ct nm se sb cs) [0..<cc] (pos i, dst)))
           [0..<n] D
         = Some (D @ concat (map (\<lambda>i. map (\<lambda>j. decode_component ct nm
                                   (take (nat (get_component_type_size ct))
                                      (drop (nat (pos i + component_position se sb cs j)) buffer)))
                                 [0..<cc]) [0..<n]))"
  using assms(2)
proof (induction n)
  case 0
  then show ?case by simp
next
  case (Suc n)
  let ?row = "\<lambda>i. map (\<lambda>j. decode_component ct nm
                (take (nat (get_component_type_size ct))
                   (drop (nat (pos i + component_position se sb cs j)) buffer))) [0..<cc]"
  have ih: "for_each
           (\<lambda>i dst. map_option snd
              (for_each (decode_step buffer ct nm se sb cs) [0..<cc] (pos i, dst)))
           [0..<n] D = Some (D @ concat (map ?row [0..<n]))"
    using Suc.IH Suc.prems by simp
  have "\<forall>j<cc. 0 \<le> pos n + component_position se sb cs j
            \<and> pos n + component_position se sb cs j + get_component_type_size ct
                 \<le> int (length buffer)"
    using Suc.prems by simp
  from decode_row[OF assms(1) this, of nm "D @ concat (map ?row [0..<n])"]
  have row: "map_option snd (for_each (decode_step buffer ct nm se sb cs) [0..<cc]
        (pos n, D @ concat (map ?row [0..<n])))
      = Some ((D @ concat (map ?row [0..<n])) @ ?row n)"
    by simp
  show ?case
    unfolding for_each_upt_Suc ih option.case row by simp
qed


lemma concat_rows_nth:
  assumes "length S = n * cc"
  shows "concat (map (\<lambda>i. map (\<lambda>j. f (S ! (i * cc + j))) [0..<cc]) [0..<n]) = map f S"
  using assms
proof (induction n arbitrary: S rule: nat.induct)
  case zero
  then show ?case by simp
next
  case (Suc n)
  let ?S' = "take (n * cc) S"
  have l: "length ?S' = n * cc" using Suc.prems by simp
  have a: "concat (map (\<lambda>i. map (\<lambda>j. f (?S' ! (i * cc + j))) [0..<cc]) [0..<n]) = map f ?S'"
    using Suc.IH[OF l] .
  have b: "map (\<lambda>i. map (\<lambda>j. f (?S' ! (i * cc + j))) [0..<cc]) [0..<n]
      = map (\<lambda>i. map (\<lambda>j. f (S ! (i * cc + j))) [0..<cc]) [0..<n]"
  proof (rule map_cong[OF refl], rule map_cong[OF refl])
    fix i j assume "i \<in> set [0..<n]" "j \<in> set [0..<cc]"
    then have "i * cc + j < n * cc"
      by (simp, metis add_less_mono1 less_le_trans mult_Suc mult_le_mono1 Suc_leI add.commute)
    then show "f (?S' ! (i * cc + j)) = f (S ! (i * cc + j))" by simp
  qed
  have c: "map (\<lambda>j. f (S ! (n * cc + j))) [0..<cc] = map f (drop (n * cc) S)"
  proof (rule nth_equalityI)
    show "length (map (\<lambda>j. f (S ! (n * cc + j))) [0..<cc]) = length (map f (drop (n * cc) S))"
      using Suc.prems by simp
  next
    fix k assume "k < length (map (\<lambda>j. f (S ! (n * cc + j))) [0..<cc])"
    then have k: "k < cc" by simp
    then show "map (\<lambda>j. f (S ! (n * cc + j))) [0..<cc] ! k = map f (drop (n * cc) S) ! k"
      using Suc.prems by simp
  qed
  have "map f S = map f ?S' @ map f (drop (n * cc) S)"
    by (metis append_take_drop_id map_append)
  then show ?case
    using a c by (simp add: b)
qed

subsection \<open>Encoding and decoding again\<close>

lemma i32_fits: "fits_i32 x \<Longrightarrow> i32 x = x"
  by (simp add: fits_i32_def i32_id)

lemma i32_u32: "i32 (u32 x) = i32 x"
  by (simp add: i32_def u32_def mod_add_left_eq)

lemma plain_alignment:
  "\<not> padded_layout ct t \<Longrightarrow> encode_alignment ct t = (0, 0)"
  "\<not> padded_layout ct t \<Longrightarrow> decode_alignment ct t es = (0, 0, es)"
  by (auto simp: padded_layout_def encode_alignment_def decode_alignment_def)

lemma component_size_values:
  assumes "get_component_type_size ct \<noteq> 0"
  shows "get_component_type_size ct \<in> {1, 2, 4}"
  using assms by (auto simp: get_component_type_size_def split: if_splits)

lemma encode_stride_cases:
  assumes "cs \<in> {1, 2, 4 :: int}"
  shows "(if fv \<and> c_rem cs 4 \<noteq> 0 then cs + (4 - c_rem cs 4) else cs) = (if fv then 4 else cs)"
  using assms by (auto simp: c_rem_def)

lemma encode_buffer_view_plain:
  assumes bufs: "buffers p_state = gltf_buffer # other"
    and plain: "\<not> padded_layout ct t"
    and sz: "get_component_type_size ct \<noteq> 0"
    and cc: "component_count_for_type t = int c" and cs: "get_component_type_size ct = int z"
    and len: "length S = n * c"
    and ok: "\<forall>d \<in> set S. storable ct nm d"
    and fv: "fv \<longrightarrow> (c * z) mod 4 = 0"
    and off: "0 \<le> pbo" "pbo \<le> int (length gltf_buffer)"
    and fit: "int (length gltf_buffer) + int (n * c * z) < 2 ^ 31"
  shows "encode_buffer_view p_state S (int n) t ct nm pbo fv
           = Some (OK,
                   p_state\<lparr>buffers := (gltf_buffer @ concat (map (stored_bytes ct nm) S)) # other,
                           buffer_views := buffer_views p_state @
                             [\<lparr>bv_buffer = int (length (buffer_views p_state)),
                               bv_byte_offset = int (length gltf_buffer),
                               bv_byte_length = int (n * c * z), bv_byte_stride = -1\<rparr>]\<rparr>,
                   Some (int (length (buffer_views p_state))))"
proof -
  let ?enc = "stored_bytes ct nm"
  have zv: "int z \<in> {1, 2, 4}" using component_size_values[OF sz] cs by simp
  then have z: "z \<in> {1, 2, 4}" by auto
  have cpos: "0 < c" using component_count_pos[of t] cc by simp
  define stride where "stride = (if fv then 4 else int z)"
  have stride: "(if fv \<and> c_rem (int z) 4 \<noteq> 0 then int z + (4 - c_rem (int z) 4) else int z) = stride"
    unfolding stride_def by (rule encode_stride_cases[OF zv])
  have sb: "int z \<le> stride" "stride \<le> 4" using zv by (auto simp: stride_def)
  have scz: "stride \<le> int (c * z)"
  proof (cases fv)
    case True
    then have "4 dvd c * z" using fv by (simp add: mod_eq_0_iff_dvd)
    moreover have "0 < c * z" using cpos z by auto
    ultimately have "4 \<le> c * z" by (rule dvd_imp_le)
    then have "int 4 \<le> int (c * z)" by (simp only: of_nat_le_iff)
    then show ?thesis using True by (simp add: stride_def del: of_nat_mult)
  next
    case False
    have "z \<le> c * z" using cpos by simp
    then have "int z \<le> int (c * z)" by (simp only: of_nat_le_iff)
    then show ?thesis using False by (simp add: stride_def del: of_nat_mult)
  qed
  define E where "E = stride * (int n - 1) + int z"
  have ncz: "int (n * c * z) < 2 ^ 31" using fit by linarith
  have "n * c \<le> n * c * z" using z by auto
  then have nc: "int (n * c) \<le> int (n * c * z)" by (simp only: of_nat_le_iff)
  have "n \<le> n * c" using cpos by auto
  then have nle: "int n \<le> int (n * c)" by (simp only: of_nat_le_iff)
  have m1: "- 4 \<le> stride * (int n - 1)" and m2: "stride * (int n - 1) + int z \<le> int (n * c * z)"
  proof -
    show "- 4 \<le> stride * (int n - 1)"
    proof (cases n)
      case 0
      then show ?thesis using sb by simp
    next
      case (Suc k)
      have "0 \<le> stride * int k" using sb zv by (intro mult_nonneg_nonneg) auto
      then show ?thesis using Suc by simp
    qed
    show "stride * (int n - 1) + int z \<le> int (n * c * z)"
    proof (cases n)
      case 0
      then show ?thesis using sb by simp
    next
      case (Suc k)
      have "stride * int k \<le> int (c * z) * int k"
        using scz by (intro mult_right_mono) auto
      moreover have "z \<le> c * z" using cpos by simp
      then have "int z \<le> int (c * z)" by (simp only: of_nat_le_iff)
      ultimately have "stride * int k + int z \<le> int (c * z) * int k + int (c * z)" by linarith
      also have "\<dots> = int (Suc k * c * z)" by (simp add: algebra_simps)
      finally show ?thesis using Suc by simp
    qed
  qed
  have f1: "i32 (int n - 1) = int n - 1"
    using nle nc ncz by (intro i32_id) auto
  have f2: "i32 (stride * (int n - 1)) = stride * (int n - 1)"
    using m1 m2 ncz zv by (intro i32_id) auto
  have f3: "i32 (stride * (int n - 1) + int z) = E"
    unfolding E_def using m1 m2 ncz zv by (intro i32_id) auto
  have Eb: "- 4 < E" "E \<le> int (n * c * z)"
    using m1 m2 zv by (auto simp: E_def)
  have "i32 (int (n * c)) = int (n * c)"
  proof (rule i32_id)
    show "- (2 ^ 31) \<le> int (n * c)" by (rule order_trans[of _ 0]) simp_all
    show "int (n * c) < 2 ^ 31" using nc ncz by linarith
  qed
  then have f4: "i32 (int n * int c) = int (n * c)" by simp
  have lg: "int (length gltf_buffer) < 2 ^ 31" using fit by linarith
  have f5: "u32 pbo = pbo"
  proof (rule u32_id)
    show "0 \<le> pbo" by (rule off)
    show "pbo < 2 ^ 32" using off lg by simp
  qed
  have f6: "i32 (u32 (pbo + E)) = pbo + E"
    unfolding i32_u32
  proof (rule i32_id)
    show "- (2 ^ 31) \<le> pbo + E" using off Eb by simp
    show "pbo + E < 2 ^ 31" using off Eb fit by (simp del: of_nat_mult)
  qed
  have all: "\<forall>x \<in> set (map ?enc S). length x = z"
    using cs ok by (simp add: length_encode_component)
  have lc: "length (concat (map ?enc S)) = z * (n * c)"
    using length_concat_chunks[OF all] len by simp
  have el: "encode_elements ct nm 0 0 n c (0, replicate (n * c) (replicate z 0), S)
      = Some (n * c, map ?enc S, [])"
    by (rule encode_elements_plain[OF len ok])
  have zz: "z * (n * c) = n * c * z" by (simp add: mult.commute)
  have c2: "\<not> pbo + E > int (length gltf_buffer) + int (z * (n * c))"
    unfolding zz using off Eb by linarith
  have bl: "int (n * c) * int z = int (n * c * z)" by simp
  have c1: "\<not> E > int (n * c * z)" using Eb by linarith
  show ?thesis
    unfolding encode_buffer_view_def Let_def cc cs bufs plain_alignment(1)[OF plain]
    using sz cs
    by (simp add: stride f1 f2 f3 f4 f5 f6 el len lc c1 c2 bl nat_mult_distrib
        del: of_nat_mult)
qed

subsection \<open>The range check of the decoder\<close>

lemma decode_buffer_view_ok:
  assumes view: "vget (buffer_views st) bvi = Some bv"
    and stride: "stride = decode_stride bv es fv"
    and buf: "0 \<le> bv_buffer bv" "bv_buffer bv < int (length (buffers st))"
      "buffer = buffers st ! nat (bv_buffer bv)"
    and off: "off = bv_byte_offset bv + pbo" "0 \<le> off" "fits_i32 off"
    and spn: "spn = stride * (p_count - 1) + es"
    and fits: "fits_i32 (p_count - 1)" "fits_i32 (stride * (p_count - 1))" "fits_i32 spn"
      "fits_i32 (off + spn)"
    and chk: "\<not> spn > bv_byte_length bv" "\<not> off + spn > int (length buffer)"
    and nonneg: "0 \<le> stride" "0 \<le> se" "0 \<le> es"
    and within: "\<forall>j < nat cc. 0 \<le> component_position se sb cs j
        \<and> component_position se sb cs j + get_component_type_size ct \<le> es"
  shows "decode_buffer_view st bvi se sb es p_count t cc ct cs nm pbo fv
           = Some (OK, concat (map (\<lambda>i. map (\<lambda>j. decode_component ct nm
                 (take (nat (get_component_type_size ct))
                    (drop (nat (off + int i * stride + component_position se sb cs j)) buffer)))
               [0..<nat cc]) [0..<nat p_count]))"
proof -
  define pos where "pos = (\<lambda>i. u32 (off + i32 (int i * stride)))"
  have o1: "u32 (i32 (bv_byte_offset bv + pbo)) = off"
    using off by (simp add: i32_fits u32_id fits_i32_def)
  have be: "decode_buffer_end stride p_count es = spn"
    using fits spn by (simp add: decode_buffer_end_def i32_fits)
  have c2: "i32 (u32 (off + spn)) = off + spn"
    using fits(4) by (simp add: i32_u32 i32_fits)
  have pos_eq: "pos i = off + int i * stride" if "i < nat p_count" for i
  proof -
    have i: "int i \<le> p_count - 1" "0 \<le> int i" using that by auto
    have le: "int i * stride \<le> (p_count - 1) * stride"
      using i nonneg(1) by (intro mult_right_mono) auto
    have ge: "0 \<le> int i * stride" using nonneg(1) by simp
    have "fits_i32 (int i * stride)"
      using le ge fits(2) by (simp add: fits_i32_def mult.commute)
    then have a: "i32 (int i * stride) = int i * stride" by (rule i32_fits)
    have "off + int i * stride \<le> off + spn"
      using le nonneg(3) by (simp add: spn mult.commute)
    then have "off + int i * stride < 2 ^ 32"
      using fits(4) by (simp add: fits_i32_def)
    then show ?thesis
      unfolding pos_def a using off(2) ge by (intro u32_id) auto
  qed
  have inb: "\<forall>i<nat p_count. \<forall>j<nat cc. 0 \<le> pos i + component_position se sb cs j
            \<and> pos i + component_position se sb cs j + get_component_type_size ct
                 \<le> int (length buffer)"
  proof (intro allI impI)
    fix i j assume i: "i < nat p_count" and j: "j < nat cc"
    have ii: "int i \<le> p_count - 1" using i by auto
    have le: "int i * stride \<le> (p_count - 1) * stride"
      using ii nonneg(1) by (intro mult_right_mono) auto
    have ge: "0 \<le> int i * stride" using nonneg(1) by simp
    from within j have w: "0 \<le> component_position se sb cs j"
      "component_position se sb cs j + get_component_type_size ct \<le> es" by auto
    have "off + int i * stride + component_position se sb cs j + get_component_type_size ct
        \<le> off + spn"
      using le w(2) by (simp add: spn mult.commute)
    then show "0 \<le> pos i + component_position se sb cs j
            \<and> pos i + component_position se sb cs j + get_component_type_size ct
                 \<le> int (length buffer)"
      unfolding pos_eq[OF i] using chk(2) off(2) ge w(1) by linarith
  qed
  have rows: "decode_elements buffer ct nm se sb cs off stride p_count cc
      = Some (concat (map (\<lambda>i. map (\<lambda>j. decode_component ct nm
                 (take (nat (get_component_type_size ct))
                    (drop (nat (pos i + component_position se sb cs j)) buffer)))
               [0..<nat cc]) [0..<nat p_count]))"
    using decode_rows[OF nonneg(2) inb, of nm "[]"] by (simp add: decode_elements_def pos_def)
  have "map (\<lambda>i. map (\<lambda>j. decode_component ct nm
                 (take (nat (get_component_type_size ct))
                    (drop (nat (pos i + component_position se sb cs j)) buffer)))
               [0..<nat cc]) [0..<nat p_count]
      = map (\<lambda>i. map (\<lambda>j. decode_component ct nm
                 (take (nat (get_component_type_size ct))
                    (drop (nat (off + int i * stride + component_position se sb cs j)) buffer)))
               [0..<nat cc]) [0..<nat p_count]"
    by (rule map_cong[OF refl]) (simp add: pos_eq)
  with rows have rows': "decode_elements buffer ct nm se sb cs off stride p_count cc
      = Some (concat (map (\<lambda>i. map (\<lambda>j. decode_component ct nm
                 (take (nat (get_component_type_size ct))
                    (drop (nat (off + int i * stride + component_position se sb cs j)) buffer)))
               [0..<nat cc]) [0..<nat p_count]))"
    by simp
  show ?thesis
    unfolding decode_buffer_view_def view option.case Let_def stride[symmetric] o1 be
      buf(3)[symmetric] c2
    using buf(1,2) chk rows' by simp
qed





subsection \<open>The round trip\<close>

lemma decode_after_encode:
  assumes plain: "\<not> padded_layout ct t"
    and sz: "get_component_type_size ct \<noteq> 0"
    and cc: "component_count_for_type t = int c" and cs: "get_component_type_size ct = int z"
    and len: "length S = n * c"
    and ok: "\<forall>d \<in> set S. storable ct nm d"
    and fv: "fv \<longrightarrow> (c * z) mod 4 = 0"
    and fit: "int (length g) + int (n * c * z) < 2 ^ 31"
    and st: "buffers st = (g @ concat (map (stored_bytes ct nm) S)) # other"
      "buffer_views st = [\<lparr>bv_buffer = 0, bv_byte_offset = int (length g),
          bv_byte_length = int (n * c * z), bv_byte_stride = -1\<rparr>]"
  shows "decode_buffer_view st 0 0 0 (int c * int z) (int n) t (int c) ct (int z) nm 0 fv
           = Some (OK, map (\<lambda>d. decode_component ct nm (stored_bytes ct nm d)) S)"
proof -
  let ?enc = "stored_bytes ct nm"
  let ?X = "concat (map ?enc S)"
  define bv where "bv = \<lparr>bv_buffer = 0, bv_byte_offset = int (length g),
          bv_byte_length = int (n * c * z), bv_byte_stride = -1\<rparr>"
  have zv: "int z \<in> {1, 2, 4}" using component_size_values[OF sz] cs by simp
  then have z: "0 < z" by auto
  have cpos: "0 < c" using component_count_pos[of t] cc by simp
  have all: "\<forall>x \<in> set (map ?enc S). length x = z"
    using cs ok by (simp add: length_encode_component)
  have lX: "length ?X = z * (n * c)"
    using length_concat_chunks[OF all] len by simp
  have ncz: "z * (n * c) = n * c * z" by (simp add: mult.commute)
  have view: "vget (buffer_views st) 0 = Some bv"
    by (simp add: st(2) vget_def bv_def)
  have stride: "int (c * z) = decode_stride bv (int c * int z) fv"
  proof -
    have "c_rem (int (c * z)) 4 = int (c * z) mod 4" by (rule c_rem_nonneg) simp_all
    also have "\<dots> = int ((c * z) mod 4)" by (simp add: zmod_int)
    finally have "fv \<longrightarrow> c_rem (int (c * z)) 4 = 0" using fv by simp
    then show ?thesis by (auto simp: decode_stride_def bv_def)
  qed
  have spn_eq: "int (n * c * z) = int (c * z) * (int n - 1) + int c * int z"
    by (simp add: algebra_simps)
  have lg: "int (length g) < 2 ^ 31" and nczb: "int (n * c * z) < 2 ^ 31" using fit by linarith+
  have nn: "0 \<le> int (n * c * z)" by simp
  have f0: "fits_i32 (int (length g))" using lg by (simp add: fits_i32_def)
  have f3: "fits_i32 (int (n * c * z))" using nczb nn by (simp add: fits_i32_def del: of_nat_mult)
  have f4: "fits_i32 (int (length g) + int (n * c * z))"
    using fit nn by (simp add: fits_i32_def del: of_nat_mult)
  have "n \<le> n * c * z" using cpos z by auto
  then have nle: "int n \<le> int (n * c * z)" by (simp only: of_nat_le_iff)
  have f1: "fits_i32 (int n - 1)"
    unfolding fits_i32_def
  proof
    show "- (2 ^ 31) \<le> int n - 1" by simp
    show "int n - 1 < 2 ^ 31" using nle nczb by linarith
  qed
  have f2: "fits_i32 (int (c * z) * (int n - 1))"
  proof -
    have "int (c * z) * (int n - 1) = int (n * c * z) - int (c * z)" by (simp add: algebra_simps)
    moreover have "int (c * z) \<le> 16 * 4"
    proof -
      have "int c \<le> 16" using cc[symmetric] by (cases t) simp_all
      moreover have "int z \<le> 4" using zv by auto
      ultimately have "int c * int z \<le> 16 * 4" by (intro mult_mono) auto
      then show ?thesis by simp
    qed
    moreover have "0 \<le> int (c * z)" by simp
    ultimately show ?thesis using nczb nn by (simp add: fits_i32_def del: of_nat_mult)
  qed
  have within: "\<forall>j < nat (int c). 0 \<le> component_position 0 0 (int z) j
        \<and> component_position 0 0 (int z) j + get_component_type_size ct \<le> int c * int z"
  proof (intro allI impI)
    fix j assume "j < nat (int c)"
    then have "Suc j \<le> c" by simp
    then have "Suc j * z \<le> c * z" by (rule mult_le_mono1)
    then have "int (Suc j * z) \<le> int (c * z)" by (simp only: of_nat_le_iff)
    then show "0 \<le> component_position 0 0 (int z) j
        \<and> component_position 0 0 (int z) j + get_component_type_size ct \<le> int c * int z"
      by (simp add: component_position_def cs algebra_simps)
  qed
  have dec: "decode_buffer_view st 0 0 0 (int c * int z) (int n) t (int c) ct (int z) nm 0 fv
      = Some (OK, concat (map (\<lambda>i. map (\<lambda>j. decode_component ct nm
            (take (nat (get_component_type_size ct))
               (drop (nat (int (length g) + int i * int (c * z) + component_position 0 0 (int z) j))
                  (g @ ?X))))
          [0..<nat (int c)]) [0..<nat (int n)]))"
  proof (rule decode_buffer_view_ok[where bv = bv and spn = "int (n * c * z)"])
    show "vget (buffer_views st) 0 = Some bv" by (rule view)
    show "int (c * z) = decode_stride bv (int c * int z) fv" by (rule stride)
    show "0 \<le> bv_buffer bv" "bv_buffer bv < int (length (buffers st))"
      by (simp_all add: bv_def st(1))
    show "g @ ?X = buffers st ! nat (bv_buffer bv)" by (simp add: bv_def st(1))
    show "int (length g) = bv_byte_offset bv + 0" by (simp add: bv_def)
    show "0 \<le> int (length g)" by simp
    show "fits_i32 (int (length g))" by (rule f0)
    show "int (n * c * z) = int (c * z) * (int n - 1) + int c * int z" by (rule spn_eq)
    show "fits_i32 (int n - 1)" by (rule f1)
    show "fits_i32 (int (c * z) * (int n - 1))" by (rule f2)
    show "fits_i32 (int (n * c * z))" by (rule f3)
    show "fits_i32 (int (length g) + int (n * c * z))" by (rule f4)
    show "\<not> bv_byte_length bv < int (n * c * z)" by (simp add: bv_def)
    show "\<not> int (length (g @ ?X)) < int (length g) + int (n * c * z)"
      by (simp add: lX ncz del: of_nat_mult)
    show "0 \<le> int (c * z)" "(0::int) \<le> 0" "0 \<le> int c * int z" by simp_all
    show "\<forall>j<nat (int c). 0 \<le> component_position 0 0 (int z) j
        \<and> component_position 0 0 (int z) j + get_component_type_size ct \<le> int c * int z"
      by (rule within)
  qed
  have cell: "decode_component ct nm
            (take (nat (get_component_type_size ct))
               (drop (nat (int (length g) + int i * int (c * z) + component_position 0 0 (int z) j))
                  (g @ ?X)))
      = decode_component ct nm (?enc (S ! (i * c + j)))" if "i < n" "j < c" for i j
  proof -
    have k: "i * c + j < n * c"
    proof -
      have "i * c + j < i * c + c" using that(2) by simp
      also have "\<dots> = Suc i * c" by simp
      also have "\<dots> \<le> n * c" using that(1) by (intro mult_le_mono1) simp
      finally show ?thesis .
    qed
    have "int (length g) + int i * int (c * z) + component_position 0 0 (int z) j
        = int (length g + z * (i * c + j))"
      by (simp add: component_position_def algebra_simps)
    then have "nat (int (length g) + int i * int (c * z) + component_position 0 0 (int z) j)
        = length g + z * (i * c + j)"
      by (simp only: nat_int)
    moreover have "take z (drop (z * (i * c + j)) ?X) = map ?enc S ! (i * c + j)"
      using concat_chunk[OF all, of "i * c + j"] k len by simp
    ultimately show ?thesis using k len by (simp add: cs)
  qed
  have n': "nat (int n) = n" "nat (int c) = c" by simp_all
  have rows_eq: "map (\<lambda>i. map (\<lambda>j. decode_component ct nm
            (take (nat (get_component_type_size ct))
               (drop (nat (int (length g) + int i * int (c * z) + component_position 0 0 (int z) j))
                  (g @ ?X))))
          [0..<c]) [0..<n]
      = map (\<lambda>i. map (\<lambda>j. decode_component ct nm (?enc (S ! (i * c + j)))) [0..<c]) [0..<n]"
  proof (rule map_cong[OF refl], rule map_cong[OF refl])
    fix i j assume "i \<in> set [0..<n]" "j \<in> set [0..<c]"
    then have "i < n" "j < c" by simp_all
    then show "decode_component ct nm
            (take (nat (get_component_type_size ct))
               (drop (nat (int (length g) + int i * int (c * z) + component_position 0 0 (int z) j))
                  (g @ ?X)))
        = decode_component ct nm (?enc (S ! (i * c + j)))"
      by (rule cell)
  qed
  have "concat (map (\<lambda>i. map (\<lambda>j. decode_component ct nm (?enc (S ! (i * c + j))))
          [0..<c]) [0..<n]) = map (\<lambda>d. decode_component ct nm (?enc d)) S"
    by (rule concat_rows_nth[OF len])
  then show ?thesis
    unfolding dec n' rows_eq by (simp only:)
qed

text \<open>
  What the code does give. In a state with a main buffer and no earlier buffer view, for a
  layout without padding rule, a count that is not negative, a source array of
  \<open>count * component_count\<close> values whose conversions are defined, an element size that is
  a multiple of 4 when the data is for vertices, and sizes below \<open>2^31\<close>:
  \<^verbatim>\<open>_encode_buffer_view\<close> succeeds, and decoding the new view with the same layout succeeds
  and returns, value by value, the decoded image of the stored bytes. That is the original
  value when the component type stores it exactly (a binary32 value for \<^verbatim>\<open>float\<close>; an
  integer of the range for an integer type that is not scaled), and differs from it by less
  than \<open>1 / max_magnitude\<close> for a normalized narrow type and a value whose product with the
  factor is in range.
\<close>

lemma first_view_round_trip:
  assumes "buffers p_state = gltf_buffer # other" and "buffer_views p_state = []"
    and "\<not> padded_layout ct t"
    and "ct \<in> {COMPONENT_TYPE_BYTE, COMPONENT_TYPE_UNSIGNED_BYTE, COMPONENT_TYPE_SHORT,
           COMPONENT_TYPE_UNSIGNED_SHORT, COMPONENT_TYPE_INT, COMPONENT_TYPE_FLOAT}"
    and "0 \<le> p_count"
    and "length p_src = nat p_count * nat (component_count_for_type t)"
    and "p_for_vertex \<longrightarrow>
           (component_count_for_type t * get_component_type_size ct) mod 4 = 0"
    and "0 \<le> p_byte_offset" and "p_byte_offset \<le> int (length gltf_buffer)"
    and "int (length gltf_buffer)
           + p_count * component_count_for_type t * get_component_type_size ct < 2 ^ 31"
    and ok: "\<forall>d \<in> set p_src. storable ct nm d"
  shows "\<exists>vals. encode_then_decode p_state p_src p_count t ct nm p_byte_offset p_for_vertex
                  = Some (OK, vals)
           \<and> length vals = length p_src
           \<and> (\<forall>k < length p_src.
                 vals ! k = decode_component ct nm (stored_bytes ct nm (p_src ! k))
                 \<and> (exact_value ct nm (p_src ! k) \<longrightarrow> vals ! k = p_src ! k)
                 \<and> (quantized_value ct nm (p_src ! k) \<longrightarrow>
                       \<bar>vals ! k - p_src ! k\<bar> < 1 / max_magnitude ct))"
proof -
  let ?enc = "stored_bytes ct nm"
  define n where "n = nat p_count"
  define c where "c = nat (component_count_for_type t)"
  define z where "z = nat (get_component_type_size ct)"
  have sz: "get_component_type_size ct \<noteq> 0" using assms(4) component_size_cases by blast
  have cc: "component_count_for_type t = int c"
    using component_count_pos[of t] by (simp add: c_def)
  have cs: "get_component_type_size ct = int z"
    using component_size_values[OF sz] by (auto simp: z_def)
  have pc: "p_count = int n" using assms(5) by (simp add: n_def)
  have len: "length p_src = n * c" using assms(6) by (simp add: n_def c_def)
  have fv: "p_for_vertex \<longrightarrow> (c * z) mod 4 = 0"
  proof
    assume p_for_vertex
    then have "int (c * z) mod 4 = 0" using assms(7) cc cs by simp
    then have "int ((c * z) mod 4) = 0" by (simp only: zmod_int of_nat_numeral)
    then show "(c * z) mod 4 = 0" by simp
  qed
  have fit: "int (length gltf_buffer) + int (n * c * z) < 2 ^ 31"
    using assms(10) by (simp add: pc cc cs)
  define state' where "state' = p_state\<lparr>buffers := (gltf_buffer @ concat (map ?enc p_src)) # other,
      buffer_views := buffer_views p_state @
        [\<lparr>bv_buffer = int (length (buffer_views p_state)),
          bv_byte_offset = int (length gltf_buffer),
          bv_byte_length = int (n * c * z), bv_byte_stride = -1\<rparr>]\<rparr>"
  have enc: "encode_buffer_view p_state p_src p_count t ct nm p_byte_offset p_for_vertex
      = Some (OK, state', Some 0)"
    unfolding pc state'_def
    using encode_buffer_view_plain[OF assms(1) assms(3) sz cc cs len ok fv assms(8) assms(9) fit]
    by (simp add: assms(2))
  have dec: "decode_buffer_view state' 0 0 0 (int c * int z) (int n) t (int c) ct (int z) nm 0
      p_for_vertex = Some (OK, map (\<lambda>d. decode_component ct nm (?enc d)) p_src)"
    by (rule decode_after_encode[OF assms(3) sz cc cs len ok fv fit, where other = other])
      (simp_all add: state'_def assms(2))
  have etd: "encode_then_decode p_state p_src p_count t ct nm p_byte_offset p_for_vertex
      = Some (OK, map (\<lambda>d. decode_component ct nm (?enc d)) p_src)"
    unfolding encode_then_decode_def enc
    using dec by (simp add: plain_alignment(2)[OF assms(3)] cc cs pc)
  show ?thesis
    unfolding etd
    using exact_value_round_trip[of ct nm] quantized_value_round_trip[of ct nm]
    by auto
qed

text \<open>
  The conversion of the encoder also narrows: 3/2 is stored as the \<^verbatim>\<open>int\<close> 1 and decoded
  as 1.
\<close>

lemma round_trip_narrows_int32:
  "encode_then_decode empty_state [3 / 2] 1 TYPE_SCALAR COMPONENT_TYPE_INT False 0 False
     = Some (OK, [1]) \<and> (1 :: real) \<noteq> 3 / 2"
  by code_simp

text \<open>The values of the example below are stored exactly.\<close>

lemma exact_int32_examples:
  "exact_value COMPONENT_TYPE_INT False 7" "exact_value COMPONENT_TYPE_INT False 1"
  "exact_value COMPONENT_TYPE_INT False 2" "exact_value COMPONENT_TYPE_UNSIGNED_BYTE False 6"
  by code_simp+

text \<open>
  Claim C2. The round trip fails for values that the component type stores exactly.
  The first call of \<^verbatim>\<open>_encode_buffer_view\<close> on a state with an empty main buffer stores
  the \<^verbatim>\<open>int\<close> 7 and gives the state \<open>second_view_state\<close>, in which view 0 names buffer 0,
  and decoding view 0 returns 7. The second call, for the values 1 and 2 as \<^verbatim>\<open>int\<close> at
  the end of the buffer, returns \<^verbatim>\<open>OK\<close> and view 1, whose \<^verbatim>\<open>buffer\<close> field is 1, the
  index of the view: the state has one buffer, and decoding view 1 fails with
  \<^verbatim>\<open>ERR_PARSE_ERROR\<close>. Vertex data of two unsigned byte \<^verbatim>\<open>VEC3\<close> elements is written with
  6 bytes, and the decoder, with a stride of 4, asks for 7: \<^verbatim>\<open>ERR_PARSE_ERROR\<close> again.
\<close>

theorem round_trip_fails_after_first_view:
  "encode_buffer_view empty_state [7] 1 TYPE_SCALAR COMPONENT_TYPE_INT False 0 False
     = Some (OK, second_view_state, Some 0)
   \<and> decode_buffer_view second_view_state 0 0 0 4 1 TYPE_SCALAR 1 COMPONENT_TYPE_INT 4 False 0
       False = Some (OK, [7])
   \<and> map_option (\<lambda>(err, st, view). (err, map bv_buffer (buffer_views st), view))
       (encode_buffer_view second_view_state [1, 2] 2 TYPE_SCALAR COMPONENT_TYPE_INT False 4 False)
     = Some (OK, [0, 1], Some 1)
   \<and> encode_then_decode second_view_state [1, 2] 2 TYPE_SCALAR COMPONENT_TYPE_INT False 4 False
     = Some (ERR_PARSE_ERROR, [])
   \<and> encode_then_decode empty_state [1, 2, 3, 4, 5, 6] 2 TYPE_VEC3 COMPONENT_TYPE_UNSIGNED_BYTE
       False 0 True = Some (ERR_PARSE_ERROR, [])"
  by code_simp

text \<open>A layout with a padding rule aborts in the encoder.\<close>

lemma round_trip_padded_layout_aborts:
  "encode_then_decode empty_state [1, 2, 3, 4] 1 TYPE_MAT2 COMPONENT_TYPE_UNSIGNED_BYTE
     False 0 False = None"
  by code_simp

subsection \<open>The padding rules\<close>

text \<open>
  C5. The decoder applies the rule: the unsigned short \<^verbatim>\<open>MAT3\<close> accessor of one element
  yields the nine values at the byte offsets 0 to 10 and 16 to 20. The encoder does not: its
  typed buffer has \<^verbatim>\<open>p_count * component_count\<close> elements and no room for padding, so for
  each of the three padded layouts the first write after a skip is out of range and the call
  aborts.
\<close>

theorem padding_rule_decoder_only:
  "decode_accessor mat3_state 0 False = Some [1, 2, 3, 4, 5, 6, 7, 8, 9] \<and>
   map (component_position 6 4 2) [0, 1, 2, 3, 4, 5, 6, 7, 8] = [0, 2, 4, 6, 8, 10, 16, 18, 20] \<and>
   encode_buffer_view empty_state [1, 2, 3, 4] 1 TYPE_MAT2 COMPONENT_TYPE_UNSIGNED_BYTE
     False 0 False = None \<and>
   encode_buffer_view empty_state [1, 2, 3, 4, 5, 6, 7, 8, 9] 1 TYPE_MAT3
     COMPONENT_TYPE_UNSIGNED_BYTE False 0 False = None \<and>
   encode_buffer_view empty_state [1, 2, 3, 4, 5, 6, 7, 8, 9] 1 TYPE_MAT3
     COMPONENT_TYPE_UNSIGNED_SHORT False 0 False = None"
  by code_simp

subsection \<open>Skins: the node hierarchy\<close>

lemma vfind_from_ge: "x \<in> set xs \<Longrightarrow> i \<le> find_from i xs x"
proof (induction xs arbitrary: i)
  case Nil
  then show ?case by simp
next
  case (Cons a xs)
  show ?case
  proof (cases "a = x")
    case True
    then show ?thesis by simp
  next
    case False
    with Cons.prems have "x \<in> set xs" by simp
    from Cons.IH [OF this, of "i + 1"] False show ?thesis by simp
  qed
qed

lemma vfind_from_lt: "0 \<le> i \<Longrightarrow> x \<notin> set xs \<Longrightarrow> find_from i xs x = -1"
  by (induction xs arbitrary: i) auto

lemma vfind_from_mem: "0 \<le> i \<Longrightarrow> 0 \<le> find_from i xs x \<Longrightarrow> x \<in> set xs"
proof (induction xs arbitrary: i)
  case Nil
  then show ?case by simp
next
  case (Cons a xs)
  then show ?case using Cons.IH [of "i + 1"] by (auto split: if_splits)
qed

lemma vfind_ge_iff: "(0 \<le> vfind xs x) = (x \<in> set xs)"
  using vfind_from_ge [of x xs 0] vfind_from_mem [of 0 xs x] by (auto simp: vfind_def)

lemma vfind_lt_iff: "(vfind xs x < 0) = (x \<notin> set xs)"
  using vfind_ge_iff [of xs x] by auto

lemma vfind_pos_mem: "0 < vfind xs x \<Longrightarrow> x \<in> set xs"
  using vfind_ge_iff [of xs x] by auto

lemma vget_valid: "valid_node nodes v \<Longrightarrow> vget nodes v = Some (nodes ! nat v)"
  by (simp add: vget_def valid_node_def)

lemma vget_Some_valid: "vget nodes v = Some node \<Longrightarrow> valid_node nodes v"
  by (simp add: vget_def valid_node_def split: if_splits)

lemma vget_node:
  assumes "valid_node nodes v"
  obtains node where "vget nodes v = Some node" "node_parent node = par nodes v"
    "node_height node = hgt nodes v" "node_children node = kids nodes v"
  using assms by (simp add: vget_valid par_def hgt_def kids_def)

lemma par_Some: "vget nodes v = Some node \<Longrightarrow> par nodes v = node_parent node"
  by (simp add: par_def)

lemma hgt_Some: "vget nodes v = Some node \<Longrightarrow> hgt nodes v = node_height node"
  by (simp add: hgt_def)

lemma kids_Some: "vget nodes v = Some node \<Longrightarrow> kids nodes v = node_children node"
  by (simp add: kids_def)

lemma par_invalid: "\<not> valid_node nodes v \<Longrightarrow> par nodes v = -1"
  by (auto simp: par_def vget_def valid_node_def)

lemma wf_nodesD:
  assumes "wf_nodes nodes" "valid_node nodes v"
  shows "wf_node nodes v"
proof -
  from assms(2) have "nat v < length nodes" "int (nat v) = v"
    by (auto simp: valid_node_def)
  with assms(1) show ?thesis
    unfolding wf_nodes_def list_all_iff by (metis atLeastLessThan_iff set_upt zero_le)
qed

lemma wf_root: "wf_nodes nodes \<Longrightarrow> valid_node nodes v \<Longrightarrow> par nodes v = -1 \<Longrightarrow> hgt nodes v = 0"
  using wf_nodesD [of nodes v] by (simp add: wf_node_def)

lemma wf_par_cases:
  assumes "wf_nodes nodes" "valid_node nodes v"
  shows "par nodes v = -1 \<or> valid_node nodes (par nodes v)"
  using wf_nodesD [OF assms] by (auto simp: wf_node_def split: if_splits)

lemma wf_par_valid:
  assumes "wf_nodes nodes" "valid_node nodes v" "valid_node nodes (par nodes v)"
  shows "hgt nodes v = hgt nodes (par nodes v) + 1"
proof -
  from assms(3) have "par nodes v \<noteq> -1" by (auto simp: valid_node_def)
  with wf_nodesD [OF assms(1,2)] show ?thesis by (simp add: wf_node_def)
qed

lemma wf_hgt_nonneg: "wf_nodes nodes \<Longrightarrow> valid_node nodes v \<Longrightarrow> 0 \<le> hgt nodes v"
  using wf_nodesD [of nodes v] by (simp add: wf_node_def)

lemma wf_hgt_pos_par:
  assumes "wf_nodes nodes" "valid_node nodes v" "0 < hgt nodes v"
  shows "valid_node nodes (par nodes v)"
  using wf_par_cases [OF assms(1,2)] wf_root [OF assms(1,2)] assms(3) by auto

lemma wf_kids:
  assumes "wf_nodes nodes" "valid_node nodes v" "c \<in> set (kids nodes v)"
  shows "valid_node nodes c \<and> par nodes c = v"
  using wf_nodesD [OF assms(1,2)] assms(3) by (auto simp: wf_node_def list_all_iff)

lemma tree_depth_ge_aux: "node \<in> set nodes \<Longrightarrow> nat (node_height node) \<le> tree_depth nodes"
  by (induction nodes) (auto simp: tree_depth_def)

lemma tree_depth_ge: "valid_node nodes v \<Longrightarrow> nat (hgt nodes v) \<le> tree_depth nodes"
proof -
  assume v: "valid_node nodes v"
  then have "nat v < length nodes" by (auto simp: valid_node_def)
  then have "nodes ! nat v \<in> set nodes" by (rule nth_mem)
  from tree_depth_ge_aux [OF this] show ?thesis by (simp add: hgt_def vget_valid [OF v])
qed

text \<open>Ancestors.\<close>

lemma up_0 [simp]: "up nodes 0 v = v"
  by (simp add: up_def)

lemma up_Suc: "up nodes (Suc k) v = par nodes (up nodes k v)"
  by (simp add: up_def)

text \<open>The top of a node inside a set of nodes.\<close>

lemma top_of_step:
  assumes "wf_nodes nodes" "valid_node nodes v" "par nodes v \<in> V" "\<forall>x \<in> V. valid_node nodes x"
  shows "top_of nodes V v = top_of nodes V (par nodes v)"
proof -
  have "valid_node nodes (par nodes v)" using assms(3,4) by simp
  from wf_par_valid [OF assms(1,2) this] wf_hgt_nonneg [OF assms(1) this]
  have "nat (hgt nodes v) = Suc (nat (hgt nodes (par nodes v)))" by simp
  then show ?thesis using assms(3) by (simp add: top_of_def)
qed

lemma top_of_top: "par nodes v \<notin> V \<Longrightarrow> top_of nodes V v = v"
  by (cases "nat (hgt nodes v)") (simp_all add: top_of_def)

lemma height_induct [consumes 2, case_names step]:
  assumes wf: "wf_nodes nodes" and v: "valid_node nodes v"
    and step: "\<And>v. valid_node nodes v \<Longrightarrow>
                 (valid_node nodes (par nodes v) \<Longrightarrow> P (par nodes v)) \<Longrightarrow> P v"
  shows "P v"
proof -
  have "\<forall>v. valid_node nodes v \<and> nat (hgt nodes v) = n \<longrightarrow> P v" for n
  proof (induction n)
    case 0
    show ?case
    proof (intro allI impI)
      fix v assume a: "valid_node nodes v \<and> nat (hgt nodes v) = 0"
      show "P v"
      proof (rule step)
        show "valid_node nodes v" using a by simp
        assume p: "valid_node nodes (par nodes v)"
        from wf_par_valid [OF wf _ p] wf_hgt_nonneg [OF wf p] a show "P (par nodes v)" by simp
      qed
    qed
  next
    case (Suc n)
    show ?case
    proof (intro allI impI)
      fix v assume a: "valid_node nodes v \<and> nat (hgt nodes v) = Suc n"
      show "P v"
      proof (rule step)
        show "valid_node nodes v" using a by simp
        assume p: "valid_node nodes (par nodes v)"
        from wf_par_valid [OF wf _ p] wf_hgt_nonneg [OF wf p] a
        have "nat (hgt nodes (par nodes v)) = n" by linarith
        with Suc p show "P (par nodes v)" by simp
      qed
    qed
  qed
  with v show ?thesis by blast
qed

lemma top_of_props:
  assumes wf: "wf_nodes nodes" and V: "\<forall>x \<in> V. valid_node nodes x" and v: "v \<in> V"
  shows "top_of nodes V v \<in> V \<and> par nodes (top_of nodes V v) \<notin> V
         \<and> (top_of nodes V v \<noteq> v \<longrightarrow> hgt nodes (top_of nodes V v) < hgt nodes v)"
proof -
  have vv: "valid_node nodes v" using V v by simp
  from wf vv have "v \<in> V \<longrightarrow> ?thesis"
  proof (induction rule: height_induct)
    case (step v)
    show ?case
    proof
      assume v: "v \<in> V"
      show "top_of nodes V v \<in> V \<and> par nodes (top_of nodes V v) \<notin> V
         \<and> (top_of nodes V v \<noteq> v \<longrightarrow> hgt nodes (top_of nodes V v) < hgt nodes v)"
      proof (cases "par nodes v \<in> V")
        case True
        then have p: "valid_node nodes (par nodes v)" using V by simp
        have eq: "top_of nodes V v = top_of nodes V (par nodes v)"
          by (rule top_of_step [OF wf step(1) True V])
        have h: "hgt nodes v = hgt nodes (par nodes v) + 1"
          by (rule wf_par_valid [OF wf step(1) p])
        from step(2) [OF p] True
        have ih: "top_of nodes V (par nodes v) \<in> V"
          "par nodes (top_of nodes V (par nodes v)) \<notin> V"
          "top_of nodes V (par nodes v) \<noteq> par nodes v \<longrightarrow>
             hgt nodes (top_of nodes V (par nodes v)) < hgt nodes (par nodes v)"
          by simp_all
        show ?thesis unfolding eq using ih h by (cases "top_of nodes V (par nodes v) = par nodes v") auto
      next
        case False
        then show ?thesis using v by (simp add: top_of_top)
      qed
    qed
  qed
  with v show ?thesis by simp
qed

lemma top_of_chain:
  assumes wf: "wf_nodes nodes" and V: "\<forall>x \<in> V. valid_node nodes x" and v: "v \<in> V"
  shows "\<exists>k. top_of nodes V v = up nodes k v \<and> (\<forall>j \<le> k. up nodes j v \<in> V)"
proof -
  have vv: "valid_node nodes v" using V v by simp
  from wf vv have "v \<in> V \<longrightarrow> ?thesis"
  proof (induction rule: height_induct)
    case (step v)
    show ?case
    proof
      assume v: "v \<in> V"
      show "\<exists>k. top_of nodes V v = up nodes k v \<and> (\<forall>j \<le> k. up nodes j v \<in> V)"
      proof (cases "par nodes v \<in> V")
        case True
        then have p: "valid_node nodes (par nodes v)" using V by simp
        have eq: "top_of nodes V v = top_of nodes V (par nodes v)"
          by (rule top_of_step [OF wf step(1) True V])
        from step(2) [OF p] True obtain k where
          k: "top_of nodes V (par nodes v) = up nodes k (par nodes v)"
            "\<forall>j \<le> k. up nodes j (par nodes v) \<in> V"
          by auto
        have shift: "up nodes j (par nodes v) = up nodes (Suc j) v" for j
          by (simp add: up_def funpow_swap1)
        have "\<forall>j \<le> Suc k. up nodes j v \<in> V"
        proof (intro allI impI)
          fix j assume "j \<le> Suc k"
          then show "up nodes j v \<in> V"
            using k(2) v shift by (cases j) auto
        qed
        then show ?thesis using eq k(1) shift by metis
      next
        case False
        then have "top_of nodes V v = up nodes 0 v \<and> (\<forall>j \<le> 0. up nodes j v \<in> V)"
          using v by (simp add: top_of_top)
        then show ?thesis by blast
      qed
    qed
  qed
  with v show ?thesis by simp
qed

lemma top_of_along_chain:
  assumes wf: "wf_nodes nodes" and V: "\<forall>x \<in> V. valid_node nodes x"
    and chain: "\<forall>j \<le> k. up nodes j v \<in> V"
  shows "j \<le> k \<Longrightarrow> top_of nodes V (up nodes j v) = top_of nodes V v"
proof (induction j)
  case 0
  then show ?case by simp
next
  case (Suc j)
  then have a: "up nodes j v \<in> V" "up nodes (Suc j) v \<in> V" using chain by simp_all
  then have "valid_node nodes (up nodes j v)" using V by simp
  from top_of_step [OF wf this _ V] a(2)
  have "top_of nodes V (up nodes j v) = top_of nodes V (up nodes (Suc j) v)"
    by (simp add: up_Suc)
  with Suc show ?case by simp
qed

subsection \<open>Skins: the disjoint set\<close>

lemma ds_inv_empty: "ds_inv f V ds_empty"
  by (simp add: ds_inv_def ds_empty_def)

lemma ds_insert_elements:
  "set (ds_elements (ds_insert ds x)) = insert x (set (ds_elements ds))"
  by (auto simp: ds_insert_def)

lemma ds_insert_parent:
  assumes "ds_inv f V ds"
  shows "ds_parent (ds_insert ds x) = ds_parent ds"
proof (cases "x \<in> set (ds_elements ds)")
  case True
  then show ?thesis by (simp add: ds_insert_def)
next
  case False
  with assms have "ds_parent ds x = x" by (simp add: ds_inv_def)
  then have "(ds_parent ds)(x := x) = ds_parent ds" by (metis fun_upd_triv)
  with False show ?thesis by (simp add: ds_insert_def)
qed

lemma ds_inv_insert:
  assumes "ds_inv f V ds" "x \<in> V"
  shows "ds_inv f V (ds_insert ds x)"
proof (cases "x \<in> set (ds_elements ds)")
  case True
  then show ?thesis using assms by (simp add: ds_insert_def)
next
  case False
  with assms(1) have px: "ds_parent ds x = x" by (simp add: ds_inv_def)
  have p: "ds_parent (ds_insert ds x) = ds_parent ds" by (rule ds_insert_parent [OF assms(1)])
  have e: "ds_elements (ds_insert ds x) = ds_elements ds @ [x]"
    using False by (simp add: ds_insert_def)
  show ?thesis
    unfolding ds_inv_def p e using assms False px by (auto simp: ds_inv_def)
qed

lemma create_union_cases:
  assumes inv: "ds_inv f V ds" and a: "a \<in> V" and b: "b \<in> V"
  obtains x y where
    "(x = ds_parent ds a \<and> y = ds_parent ds b) \<or> (x = ds_parent ds b \<and> y = ds_parent ds a)"
    "ds_parent (create_union ds a b) = (\<lambda>u. if ds_parent ds u = y then x else ds_parent ds u)"
proof -
  define ds1 where "ds1 = ds_insert (ds_insert ds a) b"
  have inv_a: "ds_inv f V (ds_insert ds a)" by (rule ds_inv_insert [OF inv a])
  have p1: "ds_parent ds1 = ds_parent ds"
    unfolding ds1_def by (simp add: ds_insert_parent [OF inv_a] ds_insert_parent [OF inv])
  define x0 where "x0 = ds_parent ds a"
  define y0 where "y0 = ds_parent ds b"
  show ?thesis
  proof (cases "x0 = y0")
    case True
    then have "create_union ds a b = ds1"
      by (simp add: create_union_def Let_def ds1_def [symmetric] p1 x0_def y0_def)
    then have "ds_parent (create_union ds a b)
               = (\<lambda>u. if ds_parent ds u = y0 then x0 else ds_parent ds u)"
      using True by (auto simp: p1)
    then show ?thesis using that [of x0 y0] by (simp add: x0_def y0_def)
  next
    case False
    show ?thesis
    proof (cases "ds_rank ds1 x0 < ds_rank ds1 y0")
      case True
      with False have "ds_parent (create_union ds a b)
               = (\<lambda>u. if ds_parent ds u = x0 then y0 else ds_parent ds u)"
        unfolding x0_def y0_def
        by (simp add: create_union_def Let_def ds1_def [symmetric] p1 cong: if_cong)
      then show ?thesis using that [of y0 x0] by (simp add: x0_def y0_def)
    next
      case lt: False
      with False have "ds_parent (create_union ds a b)
               = (\<lambda>u. if ds_parent ds u = y0 then x0 else ds_parent ds u)"
        unfolding x0_def y0_def
        by (simp add: create_union_def Let_def ds1_def [symmetric] p1 cong: if_cong)
      then show ?thesis using that [of x0 y0] by (simp add: x0_def y0_def)
    qed
  qed
qed

lemma create_union_elements:
  "set (ds_elements (create_union ds a b)) = insert a (insert b (set (ds_elements ds)))"
  by (auto simp: create_union_def Let_def ds_insert_elements)

lemma create_union_distinct:
  "distinct (ds_elements ds) \<Longrightarrow> distinct (ds_elements (create_union ds a b))"
  by (auto simp: create_union_def Let_def ds_insert_def)

lemma create_union_link:
  assumes "ds_inv f V ds" "a \<in> V" "b \<in> V" "ds_parent ds u = ds_parent ds v"
  shows "ds_parent (create_union ds a b) u = ds_parent (create_union ds a b) v"
proof -
  from create_union_cases [OF assms(1-3)] obtain x y where
    p: "ds_parent (create_union ds a b) = (\<lambda>u. if ds_parent ds u = y then x else ds_parent ds u)"
    by blast
  show ?thesis unfolding p using assms(4) by simp
qed

lemma create_union_same:
  assumes "ds_inv f V ds" "a \<in> V" "b \<in> V"
  shows "ds_parent (create_union ds a b) a = ds_parent (create_union ds a b) b"
proof -
  from create_union_cases [OF assms] obtain x y where
    xy: "(x = ds_parent ds a \<and> y = ds_parent ds b) \<or> (x = ds_parent ds b \<and> y = ds_parent ds a)"
    and p: "ds_parent (create_union ds a b) = (\<lambda>u. if ds_parent ds u = y then x else ds_parent ds u)"
    by blast
  show ?thesis unfolding p using xy by auto
qed

lemma ds_inv_union:
  assumes inv: "ds_inv f V ds" and a: "a \<in> V" and b: "b \<in> V" and fab: "f a = f b"
  shows "ds_inv f V (create_union ds a b)"
proof -
  define p where "p = ds_parent ds"
  define E where "E = set (ds_elements ds)"
  from create_union_cases [OF inv a b] obtain x y where
    xy: "(x = p a \<and> y = p b) \<or> (x = p b \<and> y = p a)"
    and p': "ds_parent (create_union ds a b) = (\<lambda>u. if p u = y then x else p u)"
    unfolding p_def by blast
  have idem: "p (p u) = p u" for u using inv by (simp add: ds_inv_def p_def)
  have clos: "u \<in> E \<Longrightarrow> p u \<in> E" for u using inv by (simp add: ds_inv_def p_def E_def)
  have fresh: "u \<notin> E \<Longrightarrow> p u = u" for u using inv by (simp add: ds_inv_def p_def E_def)
  have sound: "u \<in> E \<Longrightarrow> f (p u) = f u" for u using inv by (simp add: ds_inv_def p_def E_def)
  have sub: "E \<subseteq> V" using inv by (simp add: ds_inv_def E_def)
  have E': "set (ds_elements (create_union ds a b)) = insert a (insert b E)"
    by (simp add: create_union_elements E_def)
  have px: "p x = x" and py: "p y = y" using xy idem by auto
  have clos': "p u \<in> insert a (insert b E)" if "u \<in> insert a (insert b E)" for u
    using that clos fresh by (cases "u \<in> E") auto
  have sound': "f (p u) = f u" for u
    using sound fresh by (cases "u \<in> E") auto
  have fx: "f x = f a" and fy: "f y = f a" using xy sound' fab by auto
  have 1: "\<forall>u. (if p (if p u = y then x else p u) = y then x else p (if p u = y then x else p u))
               = (if p u = y then x else p u)"
    using px py idem by auto
  have 2: "\<forall>u \<in> insert a (insert b E). (if p u = y then x else p u) \<in> insert a (insert b E)"
  proof
    fix u assume u: "u \<in> insert a (insert b E)"
    have "x \<in> insert a (insert b E)" using xy clos' [of a] clos' [of b] by auto
    then show "(if p u = y then x else p u) \<in> insert a (insert b E)"
      using clos' [OF u] by simp
  qed
  have 3: "\<forall>u. u \<notin> insert a (insert b E) \<longrightarrow> (if p u = y then x else p u) = u"
  proof (intro allI impI)
    fix u assume u: "u \<notin> insert a (insert b E)"
    then have pu: "p u = u" using fresh by simp
    have "y \<in> insert a (insert b E)" using xy clos' [of a] clos' [of b] by auto
    with u have "u \<noteq> y" by auto
    with pu show "(if p u = y then x else p u) = u" by simp
  qed
  have 4: "distinct (ds_elements (create_union ds a b))"
    using inv by (simp add: create_union_distinct ds_inv_def)
  have 5: "\<forall>u \<in> insert a (insert b E). f (if p u = y then x else p u) = f u"
  proof
    fix u assume "u \<in> insert a (insert b E)"
    show "f (if p u = y then x else p u) = f u"
    proof (cases "p u = y")
      case True
      then have "f u = f y" using sound' [of u] by simp
      with True fx fy show ?thesis by simp
    next
      case False
      then show ?thesis using sound' by simp
    qed
  qed
  have 6: "insert a (insert b E) \<subseteq> V" using a b sub by simp
  show ?thesis
    unfolding ds_inv_def p' E' using 1 2 3 4 5 6 by (intro conjI)
qed

subsection \<open>Skins: the union pass\<close>

lemma union_loop_ok:
  assumes wf: "wf_nodes nodes" and V: "\<forall>x \<in> set all. valid_node nodes x"
  shows "set rest \<subseteq> set all \<Longrightarrow> ds_inv (top_of nodes (set all)) (set all) ds \<Longrightarrow>
    (\<forall>v \<in> D. v \<in> set (ds_elements ds)
        \<and> (par nodes v \<in> set all \<longrightarrow> ds_parent ds v = ds_parent ds (par nodes v))) \<Longrightarrow>
    \<exists>ds'. union_loop nodes all rest ds = Some ds'
      \<and> ds_inv (top_of nodes (set all)) (set all) ds'
      \<and> (\<forall>v \<in> D \<union> set rest. v \<in> set (ds_elements ds')
            \<and> (par nodes v \<in> set all \<longrightarrow> ds_parent ds' v = ds_parent ds' (par nodes v)))"
proof (induction rest arbitrary: ds D)
  case Nil
  then show ?case by simp
next
  case (Cons v rest)
  let ?f = "top_of nodes (set all)"
  have vV: "v \<in> set all" and rest: "set rest \<subseteq> set all" using Cons.prems(1) by simp_all
  have vv: "valid_node nodes v" using V vV by simp
  obtain node where node: "vget nodes v = Some node" "node_parent node = par nodes v"
    using vget_node [OF vv] by blast
  define ds1 where "ds1 = ds_insert ds v"
  define ds2 where
    "ds2 = (if par nodes v \<in> set all then create_union ds1 (par nodes v) v else ds1)"
  have inv1: "ds_inv ?f (set all) ds1"
    unfolding ds1_def by (rule ds_inv_insert [OF Cons.prems(2) vV])
  have p1: "ds_parent ds1 = ds_parent ds"
    unfolding ds1_def by (rule ds_insert_parent [OF Cons.prems(2)])
  have e1: "set (ds_elements ds1) = insert v (set (ds_elements ds))"
    unfolding ds1_def by (rule ds_insert_elements)
  have inv2: "ds_inv ?f (set all) ds2"
  proof (cases "par nodes v \<in> set all")
    case True
    have "?f (par nodes v) = ?f v"
      using top_of_step [OF wf vv True V] by simp
    from ds_inv_union [OF inv1 True vV this] True show ?thesis by (simp add: ds2_def)
  next
    case False
    then show ?thesis using inv1 by (simp add: ds2_def)
  qed
  have e2: "set (ds_elements ds1) \<subseteq> set (ds_elements ds2)"
    by (auto simp: ds2_def create_union_elements)
  have link2: "ds_parent ds2 a = ds_parent ds2 b" if "ds_parent ds1 a = ds_parent ds1 b" for a b
  proof (cases "par nodes v \<in> set all")
    case True
    from create_union_link [OF inv1 True vV that] True show ?thesis by (simp add: ds2_def)
  next
    case False
    then show ?thesis using that by (simp add: ds2_def)
  qed
  have same2: "par nodes v \<in> set all \<Longrightarrow> ds_parent ds2 v = ds_parent ds2 (par nodes v)"
    using create_union_same [OF inv1 _ vV, of "par nodes v"] by (simp add: ds2_def)
  have D2: "\<forall>u \<in> insert v D. u \<in> set (ds_elements ds2)
        \<and> (par nodes u \<in> set all \<longrightarrow> ds_parent ds2 u = ds_parent ds2 (par nodes u))"
  proof
    fix u assume u: "u \<in> insert v D"
    show "u \<in> set (ds_elements ds2)
        \<and> (par nodes u \<in> set all \<longrightarrow> ds_parent ds2 u = ds_parent ds2 (par nodes u))"
    proof (cases "u = v")
      case True
      then show ?thesis using same2 e1 e2 by auto
    next
      case False
      with u have uD: "u \<in> D" by simp
      with Cons.prems(3) have "u \<in> set (ds_elements ds)"
        "par nodes u \<in> set all \<longrightarrow> ds_parent ds u = ds_parent ds (par nodes u)"
        by auto
      then show ?thesis using e1 e2 link2 [of u "par nodes u"] p1 by auto
    qed
  qed
  have step: "union_loop nodes all (v # rest) ds = union_loop nodes all rest ds2"
    by (simp add: node Let_def ds2_def ds1_def vfind_ge_iff)
  from Cons.IH [OF rest inv2 D2] show ?case unfolding step by simp
qed

lemma union_pass_ok:
  assumes wf: "wf_nodes nodes" and V: "\<forall>x \<in> set all. valid_node nodes x"
  obtains ds where "union_pass nodes all = Some ds"
    "ds_inv (top_of nodes (set all)) (set all) ds"
    "set (ds_elements ds) = set all"
    "\<forall>v \<in> set all. ds_parent ds v = ds_parent ds (top_of nodes (set all) v)"
proof -
  let ?V = "set all"
  from union_loop_ok [OF wf V subset_refl ds_inv_empty, of "{}"]
  obtain ds where ds: "union_pass nodes all = Some ds" "ds_inv (top_of nodes ?V) ?V ds"
    and link: "\<forall>v \<in> ?V. v \<in> set (ds_elements ds)
            \<and> (par nodes v \<in> ?V \<longrightarrow> ds_parent ds v = ds_parent ds (par nodes v))"
    by (auto simp: union_pass_def)
  have els: "set (ds_elements ds) = ?V" using ds(2) link by (auto simp: ds_inv_def)
  have "\<forall>v \<in> ?V. ds_parent ds v = ds_parent ds (top_of nodes ?V v)"
  proof
    fix v assume v: "v \<in> ?V"
    then have vv: "valid_node nodes v" using V by simp
    from wf vv have "v \<in> ?V \<longrightarrow> ds_parent ds v = ds_parent ds (top_of nodes ?V v)"
    proof (induction rule: height_induct)
      case (step v)
      show ?case
      proof
        assume v: "v \<in> ?V"
        show "ds_parent ds v = ds_parent ds (top_of nodes ?V v)"
        proof (cases "par nodes v \<in> ?V")
          case True
          then have "valid_node nodes (par nodes v)" using V by simp
          from step(2) [OF this] True top_of_step [OF wf step(1) True V] link v
          show ?thesis by simp
        next
          case False
          then show ?thesis by (simp add: top_of_top)
        qed
      qed
    qed
    with v show "ds_parent ds v = ds_parent ds (top_of nodes ?V v)" by simp
  qed
  with ds els show ?thesis using that by blast
qed

subsection \<open>Skins: the roots of a set of nodes\<close>

lemma find_highest_loop_ok:
  assumes t: "0 \<le> hgt nodes t"
  shows "\<forall>x \<in> set xs. valid_node nodes x \<Longrightarrow>
    \<forall>x \<in> set xs. x \<noteq> t \<longrightarrow> hgt nodes t < hgt nodes x \<Longrightarrow>
    (t \<in> set xs \<and> (highest = -1 \<or> hgt nodes t < highest))
      \<or> (best = t \<and> highest = hgt nodes t) \<Longrightarrow>
    find_highest_loop nodes xs highest best = Some t"
proof (induction xs arbitrary: highest best)
  case Nil
  then show ?case by simp
next
  case (Cons x xs)
  have xv: "valid_node nodes x" using Cons.prems(1) by simp
  obtain node where node: "vget nodes x = Some node" "node_height node = hgt nodes x"
    using vget_node [OF xv] by blast
  have valid: "\<forall>x \<in> set xs. valid_node nodes x"
    and low: "\<forall>x \<in> set xs. x \<noteq> t \<longrightarrow> hgt nodes t < hgt nodes x"
    using Cons.prems(1,2) by simp_all
  show ?case
  proof (cases "highest = -1 \<or> hgt nodes x < highest")
    case True
    then have step: "find_highest_loop nodes (x # xs) highest best
                     = find_highest_loop nodes xs (hgt nodes x) x"
      by (simp add: node)
    have "(t \<in> set xs \<and> (hgt nodes x = -1 \<or> hgt nodes t < hgt nodes x))
          \<or> (x = t \<and> hgt nodes x = hgt nodes t)"
    proof (cases "x = t")
      case True
      then show ?thesis by simp
    next
      case False
      then have "hgt nodes t < hgt nodes x" using Cons.prems(2) by simp
      moreover have "t \<in> set xs" using Cons.prems(3) False True t \<open>hgt nodes t < hgt nodes x\<close>
        by auto
      ultimately show ?thesis by simp
    qed
    from Cons.IH [OF valid low this] show ?thesis unfolding step .
  next
    case False
    then have step: "find_highest_loop nodes (x # xs) highest best
                     = find_highest_loop nodes xs highest best"
      by (simp add: node)
    have "(t \<in> set xs \<and> (highest = -1 \<or> hgt nodes t < highest))
          \<or> (best = t \<and> highest = hgt nodes t)"
      using Cons.prems(3) False by auto
    from Cons.IH [OF valid low this] show ?thesis unfolding step .
  qed
qed

lemma find_highest_node_ok:
  assumes "0 \<le> hgt nodes t" "\<forall>x \<in> set xs. valid_node nodes x"
    "\<forall>x \<in> set xs. x \<noteq> t \<longrightarrow> hgt nodes t < hgt nodes x" "t \<in> set xs"
  shows "find_highest_node nodes xs = Some t"
  unfolding find_highest_node_def
  by (rule find_highest_loop_ok [OF assms(1-3)]) (simp add: assms(4))

lemma highest_of_sets_ok:
  assumes wf: "wf_nodes nodes" and V: "\<forall>x \<in> V. valid_node nodes x"
    and inv: "ds_inv (top_of nodes V) V ds" and els: "set (ds_elements ds) = V"
    and tp: "\<forall>v \<in> V. ds_parent ds v = ds_parent ds (top_of nodes V v)"
  shows "set rs \<subseteq> set (get_representatives ds) \<Longrightarrow>
         highest_of_sets nodes ds rs = Some (Some (map (top_of nodes V) rs))"
proof (induction rs)
  case Nil
  then show ?case by simp
next
  case (Cons r rs)
  let ?f = "top_of nodes V"
  have r: "r \<in> V" "ds_parent ds r = r"
    using Cons.prems els by (auto simp: get_representatives_def)
  have members: "get_members ds r = filter (\<lambda>x. ds_parent ds x = r) (ds_elements ds)"
    using r els by (simp add: get_members_def)
  have sound: "u \<in> V \<Longrightarrow> ?f (ds_parent ds u) = ?f u" for u
    using inv els by (simp add: ds_inv_def)
  have t: "?f r \<in> V" "par nodes (?f r) \<notin> V"
    using top_of_props [OF wf V r(1)] by simp_all
  have tv: "valid_node nodes (?f r)" using V t(1) by simp
  have "ds_parent ds (?f r) = r"
    using tp r by auto
  then have mem: "?f r \<in> set (get_members ds r)"
    using t(1) els by (simp add: members)
  have low: "\<forall>x \<in> set (get_members ds r). x \<noteq> ?f r \<longrightarrow> hgt nodes (?f r) < hgt nodes x"
  proof (intro ballI impI)
    fix x assume x: "x \<in> set (get_members ds r)" and ne: "x \<noteq> ?f r"
    then have xV: "x \<in> V" and px: "ds_parent ds x = r" using els by (auto simp: members)
    from sound [OF xV] px have "?f x = ?f r" by simp
    with top_of_props [OF wf V xV] ne show "hgt nodes (?f r) < hgt nodes x" by auto
  qed
  have valid: "\<forall>x \<in> set (get_members ds r). valid_node nodes x"
    using V els by (auto simp: members)
  have found: "find_highest_node nodes (get_members ds r) = Some (?f r)"
    by (rule find_highest_node_ok [OF wf_hgt_nonneg [OF wf tv] valid low mem])
  have nonneg: "\<not> ?f r < 0" using tv by (simp add: valid_node_def)
  from Cons have ih: "highest_of_sets nodes ds rs = Some (Some (map ?f rs))" by simp
  show ?case by (simp add: found nonneg ih)
qed

lemma compute_roots_ok:
  assumes wf: "wf_nodes nodes" and V: "\<forall>x \<in> set all. valid_node nodes x"
  shows "compute_roots nodes all = Some (Some (sorted_list_of_set (tops nodes (set all))))"
proof -
  let ?V = "set all"
  let ?f = "top_of nodes ?V"
  from union_pass_ok [OF wf V] obtain ds where ds: "union_pass nodes all = Some ds"
    and inv: "ds_inv ?f ?V ds" and els: "set (ds_elements ds) = ?V"
    and tp: "\<forall>v \<in> ?V. ds_parent ds v = ds_parent ds (?f v)"
    by blast
  let ?reps = "get_representatives ds"
  have hs: "highest_of_sets nodes ds ?reps = Some (Some (map ?f ?reps))"
    by (rule highest_of_sets_ok [OF wf V inv els tp subset_refl])
  have reps: "r \<in> set ?reps \<longleftrightarrow> r \<in> ?V \<and> ds_parent ds r = r" for r
    using els by (auto simp: get_representatives_def)
  have idem: "ds_parent ds (ds_parent ds u) = ds_parent ds u" for u
    using inv by (simp add: ds_inv_def)
  have clos: "u \<in> ?V \<Longrightarrow> ds_parent ds u \<in> ?V" for u
    using inv els by (simp add: ds_inv_def)
  have sound: "u \<in> ?V \<Longrightarrow> ?f (ds_parent ds u) = ?f u" for u
    using inv els by (simp add: ds_inv_def)
  have set_eq: "set (map ?f ?reps) = tops nodes ?V"
  proof (intro set_eqI iffI)
    fix t assume "t \<in> set (map ?f ?reps)"
    then obtain r where r: "r \<in> ?V" "t = ?f r" using reps by auto
    from top_of_props [OF wf V r(1)] r(2) show "t \<in> tops nodes ?V" by (simp add: tops_def)
  next
    fix t assume "t \<in> tops nodes ?V"
    then have t: "t \<in> ?V" "par nodes t \<notin> ?V" by (simp_all add: tops_def)
    have "ds_parent ds t \<in> set ?reps" using reps clos [OF t(1)] idem by simp
    moreover have "?f (ds_parent ds t) = t" using sound [OF t(1)] top_of_top [OF t(2)] by simp
    ultimately show "t \<in> set (map ?f ?reps)" by force
  qed
  have "inj_on ?f (set ?reps)"
  proof (rule inj_onI)
    fix a b assume a: "a \<in> set ?reps" and b: "b \<in> set ?reps" and eq: "?f a = ?f b"
    from a b reps tp have "ds_parent ds a = ds_parent ds (?f a)"
      "ds_parent ds b = ds_parent ds (?f b)" by auto
    with eq a b reps show "a = b" by simp
  qed
  moreover have "distinct ?reps" using inv by (simp add: get_representatives_def ds_inv_def)
  ultimately have "distinct (map ?f ?reps)" by (simp add: distinct_map)
  then have rd: "remdups (map ?f ?reps) = map ?f ?reps" by (rule distinct_remdups_id)
  have "sorted_list_of_set (set (map ?f ?reps)) = sort (remdups (map ?f ?reps))"
    by (rule sorted_list_of_set_sort_remdups)
  then have "sort (map ?f ?reps) = sorted_list_of_set (tops nodes ?V)"
    unfolding rd set_eq by simp
  then show ?thesis by (simp add: compute_roots_def ds hs)
qed

lemma sorted_tops:
  assumes "\<forall>x \<in> set all. valid_node nodes x"
  shows "set (sorted_list_of_set (tops nodes (set all))) = tops nodes (set all)"
proof -
  have "finite (tops nodes (set all))" by (simp add: tops_def)
  then show ?thesis by simp
qed

subsection \<open>Skins: climbing to a common parent\<close>

lemma mark_node_nodes: "skin_nodes (mark_node node p_skin i) = insert i (skin_nodes p_skin)"
  by (auto simp: mark_node_def skin_nodes_def vfind_lt_iff)

lemma climb_inv_step:
  assumes inv: "climb_inv nodes J O' V (insert r Rest)"
    and p: "valid_node nodes (par nodes r)"
  shows "climb_inv nodes J O' (insert (par nodes r) V) (insert (par nodes r) Rest)"
proof -
  let ?p = "par nodes r"
  from inv have J: "J \<subseteq> V" and R: "insert r Rest \<subseteq> V" and val: "\<forall>x \<in> V. valid_node nodes x"
    and b: "\<forall>u \<in> V. u \<in> J \<or> u \<in> insert r Rest \<or> par nodes u \<in> V"
    and c: "\<forall>o' \<in> O'. \<exists>c \<in> insert r Rest. \<exists>m. c = up nodes m o' \<and> (\<forall>j \<le> m. up nodes j o' \<in> V)"
    by (simp_all add: climb_inv_def)
  have 1: "J \<subseteq> insert ?p V" using J by auto
  have 2: "insert ?p Rest \<subseteq> insert ?p V" using R by auto
  have 3: "\<forall>x \<in> insert ?p V. valid_node nodes x" using val p by simp
  have 4: "\<forall>u \<in> insert ?p V. u \<in> J \<or> u \<in> insert ?p Rest \<or> par nodes u \<in> insert ?p V"
    using b by auto
  have 5: "\<forall>o' \<in> O'. \<exists>c \<in> insert ?p Rest. \<exists>m. c = up nodes m o'
             \<and> (\<forall>j \<le> m. up nodes j o' \<in> insert ?p V)"
  proof
    fix o' assume "o' \<in> O'"
    with c obtain c m where cm: "c \<in> insert r Rest" "c = up nodes m o'"
      "\<forall>j \<le> m. up nodes j o' \<in> V" by blast
    show "\<exists>c \<in> insert ?p Rest. \<exists>m. c = up nodes m o' \<and> (\<forall>j \<le> m. up nodes j o' \<in> insert ?p V)"
    proof (cases "c = r")
      case True
      then have "?p = up nodes (Suc m) o'" using cm(2) by (simp add: up_Suc)
      moreover have "\<forall>j \<le> Suc m. up nodes j o' \<in> insert ?p V"
      proof (intro allI impI)
        fix j assume "j \<le> Suc m"
        then consider "j \<le> m" | "j = Suc m" by linarith
        then show "up nodes j o' \<in> insert ?p V"
        proof cases
          case 1
          then show ?thesis using cm(3) by simp
        next
          case 2
          then show ?thesis using \<open>?p = up nodes (Suc m) o'\<close> by simp
        qed
      qed
      ultimately show ?thesis by blast
    next
      case False
      with cm(1) have "c \<in> insert ?p Rest" by simp
      moreover have "\<forall>j \<le> m. up nodes j o' \<in> insert ?p V" using cm(3) by simp
      ultimately show ?thesis using cm(2) by blast
    qed
  qed
  show ?thesis unfolding climb_inv_def using 1 2 3 4 5 by (intro conjI)
qed

lemma max_height_loop_ok:
  assumes wf: "wf_nodes nodes"
  shows "\<forall>r \<in> set rs. valid_node nodes r \<Longrightarrow> m = -1 \<or> 0 \<le> m \<Longrightarrow>
    \<exists>m'. max_height_loop nodes rs m = Some m' \<and> (\<forall>r \<in> set rs. m' \<le> hgt nodes r)
      \<and> (m \<noteq> -1 \<longrightarrow> m' \<le> m) \<and> (m' = -1 \<or> 0 \<le> m') \<and> (m' = -1 \<longrightarrow> rs = [])"
proof (induction rs arbitrary: m)
  case Nil
  then show ?case by simp
next
  case (Cons x rs)
  have xv: "valid_node nodes x" and val: "\<forall>r \<in> set rs. valid_node nodes r"
    using Cons.prems(1) by simp_all
  obtain node where node: "vget nodes x = Some node" "node_height node = hgt nodes x"
    using vget_node [OF xv] by blast
  have hx: "0 \<le> hgt nodes x" by (rule wf_hgt_nonneg [OF wf xv])
  show ?case
  proof (cases "m = -1 \<or> hgt nodes x < m")
    case True
    then have step: "max_height_loop nodes (x # rs) m = max_height_loop nodes rs (hgt nodes x)"
      by (simp add: node)
    from Cons.IH [OF val, of "hgt nodes x"] hx obtain m' where
      "max_height_loop nodes rs (hgt nodes x) = Some m'" "\<forall>r \<in> set rs. m' \<le> hgt nodes r"
      "hgt nodes x \<noteq> -1 \<longrightarrow> m' \<le> hgt nodes x" "m' = -1 \<or> 0 \<le> m'" "m' = -1 \<longrightarrow> rs = []"
      by auto
    then show ?thesis unfolding step using hx True Cons.prems(2) by auto
  next
    case False
    then have step: "max_height_loop nodes (x # rs) m = max_height_loop nodes rs m"
      by (simp add: node)
    from Cons.IH [OF val Cons.prems(2)] obtain m' where
      "max_height_loop nodes rs m = Some m'" "\<forall>r \<in> set rs. m' \<le> hgt nodes r"
      "m \<noteq> -1 \<longrightarrow> m' \<le> m" "m' = -1 \<or> 0 \<le> m'" "m' = -1 \<longrightarrow> rs = []"
      by auto
    then show ?thesis unfolding step using hx False by auto
  qed
qed

lemma climb_to_height_ok:
  assumes wf: "wf_nodes nodes" and mh: "0 \<le> mh"
  shows "climb_inv nodes J O' (skin_nodes S) (insert cur Rest) \<Longrightarrow>
    nat (hgt nodes cur) < fuel \<Longrightarrow> mh \<le> hgt nodes cur \<Longrightarrow>
    \<exists>S' cur'. climb_to_height fuel nodes mh S cur = Some (S', cur')
      \<and> climb_inv nodes J O' (skin_nodes S') (insert cur' Rest) \<and> hgt nodes cur' = mh"
proof (induction fuel arbitrary: S cur)
  case 0
  then show ?case by simp
next
  case (Suc fuel)
  have cv: "valid_node nodes cur" using Suc.prems(1) by (simp add: climb_inv_def)
  obtain node where node: "vget nodes cur = Some node" "node_height node = hgt nodes cur"
    "node_parent node = par nodes cur"
    using vget_node [OF cv] by blast
  show ?case
  proof (cases "mh < hgt nodes cur")
    case True
    then have pos: "0 < hgt nodes cur" using mh by simp
    have pv: "valid_node nodes (par nodes cur)" by (rule wf_hgt_pos_par [OF wf cv pos])
    obtain pnode where pnode: "vget nodes (par nodes cur) = Some pnode"
      using vget_node [OF pv] by blast
    define S1 where "S1 = mark_node pnode S (par nodes cur)"
    have step: "climb_to_height (Suc fuel) nodes mh S cur
                = climb_to_height fuel nodes mh S1 (par nodes cur)"
      using True by (simp add: node pnode Let_def S1_def)
    have inv1: "climb_inv nodes J O' (skin_nodes S1) (insert (par nodes cur) Rest)"
      unfolding S1_def mark_node_nodes by (rule climb_inv_step [OF Suc.prems(1) pv])
    have h: "hgt nodes cur = hgt nodes (par nodes cur) + 1"
      by (rule wf_par_valid [OF wf cv pv])
    have "nat (hgt nodes (par nodes cur)) < fuel" using Suc.prems(2) h pos by linarith
    moreover have "mh \<le> hgt nodes (par nodes cur)" using True h by simp
    ultimately show ?thesis unfolding step using Suc.IH [OF inv1] by simp
  next
    case False
    then have "climb_to_height (Suc fuel) nodes mh S cur = Some (S, cur)"
      by (simp add: node)
    moreover have "hgt nodes cur = mh" using False Suc.prems(3) by simp
    ultimately show ?thesis using Suc.prems(1) by simp
  qed
qed

lemma level_roots_ok:
  assumes wf: "wf_nodes nodes" and mh: "0 \<le> mh"
  shows "climb_inv nodes J O' (skin_nodes S) (set rs \<union> Rest) \<Longrightarrow>
    \<forall>r \<in> set rs. mh \<le> hgt nodes r \<and> nat (hgt nodes r) < fuel \<Longrightarrow>
    \<exists>S' rs'. level_roots fuel nodes mh S rs = Some (S', rs')
      \<and> climb_inv nodes J O' (skin_nodes S') (set rs' \<union> Rest)
      \<and> (\<forall>r \<in> set rs'. hgt nodes r = mh) \<and> length rs' = length rs"
proof (induction rs arbitrary: S Rest)
  case Nil
  then show ?case by simp
next
  case (Cons r rs)
  have inv: "climb_inv nodes J O' (skin_nodes S) (insert r (set rs \<union> Rest))"
    using Cons.prems(1) by simp
  from climb_to_height_ok [OF wf mh inv, of fuel] Cons.prems(2)
  obtain S1 cur where c: "climb_to_height fuel nodes mh S r = Some (S1, cur)"
    "climb_inv nodes J O' (skin_nodes S1) (insert cur (set rs \<union> Rest))" "hgt nodes cur = mh"
    by auto
  have inv1: "climb_inv nodes J O' (skin_nodes S1) (set rs \<union> insert cur Rest)"
    using c(2) by simp
  from Cons.IH [OF inv1] Cons.prems(2)
  obtain S2 rs' where l: "level_roots fuel nodes mh S1 rs = Some (S2, rs')"
    "climb_inv nodes J O' (skin_nodes S2) (set rs' \<union> insert cur Rest)"
    "\<forall>r \<in> set rs'. hgt nodes r = mh" "length rs' = length rs"
    by auto
  have "level_roots fuel nodes mh S (r # rs) = Some (S2, cur # rs')"
    by (simp add: c(1) l(1))
  moreover have "climb_inv nodes J O' (skin_nodes S2) (set (cur # rs') \<union> Rest)"
    using l(2) by simp
  ultimately show ?case using l(3,4) c(3) by simp
qed

lemma parents_of_ok:
  "\<forall>r \<in> set rs. valid_node nodes r \<Longrightarrow> parents_of nodes rs = Some (map (par nodes) rs)"
proof (induction rs)
  case Nil
  then show ?case by simp
next
  case (Cons r rs)
  then have "valid_node nodes r" by simp
  then obtain node where "vget nodes r = Some node" "node_parent node = par nodes r"
    using vget_node by blast
  with Cons show ?case by simp
qed

lemma climb_all_ok:
  shows "climb_inv nodes J O' (skin_nodes S) (set rs \<union> Rest) \<Longrightarrow>
    \<forall>r \<in> set rs. valid_node nodes (par nodes r) \<Longrightarrow>
    \<exists>S'. climb_all nodes S rs = Some (S', map (par nodes) rs)
      \<and> climb_inv nodes J O' (skin_nodes S') (set (map (par nodes) rs) \<union> Rest)"
proof (induction rs arbitrary: S Rest)
  case Nil
  then show ?case by simp
next
  case (Cons r rs)
  have inv: "climb_inv nodes J O' (skin_nodes S) (insert r (set rs \<union> Rest))"
    using Cons.prems(1) by simp
  then have rv: "valid_node nodes r" by (simp add: climb_inv_def)
  have pv: "valid_node nodes (par nodes r)" using Cons.prems(2) by simp
  obtain node where node: "vget nodes r = Some node" "node_parent node = par nodes r"
    using vget_node [OF rv] by blast
  obtain pnode where pnode: "vget nodes (par nodes r) = Some pnode"
    using vget_node [OF pv] by blast
  define S1 where "S1 = mark_node pnode S (par nodes r)"
  have "climb_inv nodes J O' (skin_nodes S1) (insert (par nodes r) (set rs \<union> Rest))"
    unfolding S1_def mark_node_nodes by (rule climb_inv_step [OF inv pv])
  then have inv1: "climb_inv nodes J O' (skin_nodes S1) (set rs \<union> insert (par nodes r) Rest)"
    by simp
  from Cons.IH [OF inv1] Cons.prems(2)
  obtain S2 where a: "climb_all nodes S1 rs = Some (S2, map (par nodes) rs)"
    "climb_inv nodes J O' (skin_nodes S2) (set (map (par nodes) rs) \<union> insert (par nodes r) Rest)"
    by auto
  have "climb_all nodes S (r # rs) = Some (S2, map (par nodes) (r # rs))"
    by (simp add: node pnode Let_def S1_def [symmetric] a(1))
  moreover have "climb_inv nodes J O' (skin_nodes S2) (set (map (par nodes) (r # rs)) \<union> Rest)"
    using a(2) by simp
  ultimately show ?case by blast
qed

lemma wf_hgt_zero_root:
  assumes "wf_nodes nodes" "valid_node nodes v" "hgt nodes v = 0"
  shows "par nodes v = -1"
proof (rule ccontr)
  assume "par nodes v \<noteq> -1"
  with wf_par_cases [OF assms(1,2)] have p: "valid_node nodes (par nodes v)" by simp
  from wf_par_valid [OF assms(1,2) p] wf_hgt_nonneg [OF assms(1) p] assms(3)
  show False by simp
qed

lemma climb_to_same_parent_ok:
  assumes wf: "wf_nodes nodes"
  shows "climb_inv nodes J O' (skin_nodes S) (set rs) \<Longrightarrow> rs \<noteq> [] \<Longrightarrow>
    \<forall>r \<in> set rs. hgt nodes r = H \<Longrightarrow> nat H < fuel \<Longrightarrow>
    \<exists>S' rs'. climb_to_same_parent fuel nodes S rs = Some S'
      \<and> climb_inv nodes J O' (skin_nodes S') (set rs') \<and> rs' \<noteq> []
      \<and> (\<forall>r \<in> set rs'. par nodes r = par nodes (hd rs'))"
proof (induction fuel arbitrary: S rs H)
  case 0
  then show ?case by simp
next
  case (Suc fuel)
  have val: "\<forall>r \<in> set rs. valid_node nodes r"
    using Suc.prems(1) by (auto simp: climb_inv_def)
  obtain r0 others where rs: "rs = r0 # others" using Suc.prems(2) by (cases rs) auto
  have parents: "parents_of nodes rs = Some (par nodes r0 # map (par nodes) others)"
    using parents_of_ok [OF val] by (simp add: rs)
  show ?case
  proof (cases "list_all (\<lambda>p. par nodes r0 = p) (map (par nodes) others)")
    case True
    then have "climb_to_same_parent (Suc fuel) nodes S rs = Some S"
      by (simp add: parents)
    moreover have "\<forall>r \<in> set rs. par nodes r = par nodes (hd rs)"
      using True by (auto simp: rs list_all_iff)
    ultimately show ?thesis using Suc.prems(1,2) by blast
  next
    case False
    then obtain r where r: "r \<in> set others" "par nodes r0 \<noteq> par nodes r"
      by (auto simp: list_all_iff)
    have H0: "0 \<le> H" using wf_hgt_nonneg [OF wf] val Suc.prems(3) rs by auto
    have "H \<noteq> 0"
    proof
      assume "H = 0"
      then have "par nodes r0 = -1" "par nodes r = -1"
        using wf_hgt_zero_root [OF wf] val Suc.prems(3) r(1) rs by auto
      with r(2) show False by simp
    qed
    with H0 have Hpos: "0 < H" by simp
    have pv: "\<forall>r \<in> set rs. valid_node nodes (par nodes r)"
      using wf_hgt_pos_par [OF wf] val Suc.prems(3) Hpos by auto
    have inv: "climb_inv nodes J O' (skin_nodes S) (set rs \<union> {})" using Suc.prems(1) by simp
    from climb_all_ok [OF inv pv]
    obtain S1 where a: "climb_all nodes S rs = Some (S1, map (par nodes) rs)"
      "climb_inv nodes J O' (skin_nodes S1) (set (map (par nodes) rs))"
      by auto
    have step: "climb_to_same_parent (Suc fuel) nodes S rs
                = climb_to_same_parent fuel nodes S1 (map (par nodes) rs)"
      using False by (simp add: parents a(1))
    have h1: "\<forall>r \<in> set (map (par nodes) rs). hgt nodes r = H - 1"
    proof
      fix p assume "p \<in> set (map (par nodes) rs)"
      then obtain x where x: "x \<in> set rs" "p = par nodes x" by auto
      with val pv have "hgt nodes x = hgt nodes p + 1" using wf_par_valid [OF wf] by simp
      with Suc.prems(3) x(1) show "hgt nodes p = H - 1" by simp
    qed
    have ne: "map (par nodes) rs \<noteq> []" using Suc.prems(2) by simp
    have fuel: "nat (H - 1) < fuel" using Suc.prems(4) Hpos by linarith
    from Suc.IH [OF a(2) ne h1 fuel] show ?thesis unfolding step .
  qed
qed

lemma same_parent_tops:
  assumes wf: "wf_nodes nodes" and inv: "climb_inv nodes J O' V R"
    and P: "\<forall>r \<in> R. par nodes r = P"
    and cover: "\<forall>v \<in> J. \<exists>o' \<in> O'. top_of nodes J v = top_of nodes J o'" and O: "O' \<subseteq> J"
    and t1: "t1 \<in> tops nodes V" and t2: "t2 \<in> tops nodes V"
  shows "par nodes t1 = par nodes t2"
proof -
  from inv have J: "J \<subseteq> V" and val: "\<forall>x \<in> V. valid_node nodes x"
    and b: "\<forall>u \<in> V. u \<in> J \<or> u \<in> R \<or> par nodes u \<in> V"
    and c: "\<forall>o' \<in> O'. \<exists>c \<in> R. \<exists>m. c = up nodes m o' \<and> (\<forall>j \<le> m. up nodes j o' \<in> V)"
    by (simp_all add: climb_inv_def)
  have Jval: "\<forall>x \<in> J. valid_node nodes x" using J val by auto
  have kind: "par nodes t = P \<or> (P \<in> J \<and> t = top_of nodes J P)" if t: "t \<in> tops nodes V" for t
  proof -
    from t have tV: "t \<in> V" and pt: "par nodes t \<notin> V" by (simp_all add: tops_def)
    from b tV pt have "t \<in> J \<or> t \<in> R" by auto
    then show ?thesis
    proof
      assume "t \<in> R"
      then show ?thesis using P by simp
    next
      assume tJ: "t \<in> J"
      from pt J have "par nodes t \<notin> J" by auto
      then have top_t: "top_of nodes J t = t" by (rule top_of_top)
      from cover tJ obtain o' where o': "o' \<in> O'" "top_of nodes J t = top_of nodes J o'" by blast
      then have oJ: "o' \<in> J" using O by auto
      from top_of_chain [OF wf Jval oJ] obtain k where
        k: "top_of nodes J o' = up nodes k o'" "\<forall>j \<le> k. up nodes j o' \<in> J" by blast
      from c o'(1) obtain cc m where
        m: "cc \<in> R" "cc = up nodes m o'" "\<forall>j \<le> m. up nodes j o' \<in> V" by blast
      have tk: "t = up nodes k o'" using top_t o'(2) k(1) by simp
      consider "k < m" | "k = m" | "m < k" by linarith
      then show ?thesis
      proof cases
        case 1
        then have "up nodes (Suc k) o' \<in> V" using m(3) by simp
        then have "par nodes t \<in> V" using tk by (simp add: up_Suc)
        with pt show ?thesis by simp
      next
        case 2
        then have "t \<in> R" using tk m by simp
        then show ?thesis using P by simp
      next
        case 3
        have "P = up nodes (Suc m) o'" using P m(1,2) by (simp add: up_Suc)
        moreover have "Suc m \<le> k" using 3 by simp
        ultimately have "P \<in> J" and "top_of nodes J P = top_of nodes J o'"
          using k(2) top_of_along_chain [OF wf Jval k(2), of "Suc m"] by simp_all
        then show ?thesis using top_t o'(2) by simp
      qed
    qed
  qed
  from kind [OF t1] kind [OF t2] show ?thesis
  proof (elim disjE conjE)
    assume "par nodes t1 = P" "par nodes t2 = P"
    then show ?thesis by simp
  next
    assume "par nodes t1 = P" "P \<in> J"
    then have "par nodes t1 \<in> V" using J by auto
    with t1 show ?thesis by (simp add: tops_def)
  next
    assume "par nodes t2 = P" "P \<in> J"
    then have "par nodes t2 \<in> V" using J by auto
    with t2 show ?thesis by (simp add: tops_def)
  next
    assume "t1 = top_of nodes J P" "t2 = top_of nodes J P"
    then show ?thesis by simp
  qed
qed

subsection \<open>Skins: the leveling pass and the marking pass\<close>

lemma multirooted_ok:
  assumes wf: "wf_nodes nodes"
    and jv: "\<forall>j \<in> set (skin_joints S). valid_node nodes j"
    and nj: "skin_non_joints S = []"
    and un: "union_pass nodes (skin_joints S) = Some ds"
    and two: "2 \<le> length (get_representatives ds)"
    and fuel: "tree_depth nodes < fuel"
  obtains S' where "capture_nodes_for_multirooted_skin fuel nodes S = Some S'"
    "\<forall>x \<in> skin_nodes S'. valid_node nodes x" "skin_nodes S' \<noteq> {}"
    "\<forall>t1 \<in> tops nodes (skin_nodes S'). \<forall>t2 \<in> tops nodes (skin_nodes S').
       par nodes t1 = par nodes t2"
proof -
  let ?J = "set (skin_joints S)"
  let ?reps = "get_representatives ds"
  let ?f = "top_of nodes ?J"
  from union_pass_ok [OF wf jv] un
  have inv: "ds_inv ?f ?J ds" and els: "set (ds_elements ds) = ?J" by auto
  have V0: "skin_nodes S = ?J" by (simp add: skin_nodes_def nj)
  have reps_J: "set ?reps \<subseteq> ?J" using els by (auto simp: get_representatives_def)
  have reps_ne: "?reps \<noteq> []" using two by auto
  have reps_val: "\<forall>r \<in> set ?reps. valid_node nodes r" using reps_J jv by auto
  from max_height_loop_ok [OF wf reps_val, of "-1"] reps_ne
  obtain mh where mh: "max_height_loop nodes ?reps (-1) = Some mh"
    "\<forall>r \<in> set ?reps. mh \<le> hgt nodes r" "0 \<le> mh"
    by auto
  have inv0: "climb_inv nodes ?J (set ?reps) (skin_nodes S) (set ?reps \<union> {})"
    unfolding climb_inv_def V0
  proof (intro conjI)
    show "\<forall>o' \<in> set ?reps. \<exists>c \<in> set ?reps \<union> {}. \<exists>m. c = up nodes m o'
            \<and> (\<forall>j \<le> m. up nodes j o' \<in> ?J)"
    proof
      fix o' assume o': "o' \<in> set ?reps"
      then have "o' = up nodes 0 o' \<and> (\<forall>j \<le> 0. up nodes j o' \<in> ?J)" using reps_J by auto
      with o' show "\<exists>c \<in> set ?reps \<union> {}. \<exists>m. c = up nodes m o' \<and> (\<forall>j \<le> m. up nodes j o' \<in> ?J)"
        by blast
    qed
  next
    show "\<forall>u \<in> ?J. u \<in> ?J \<or> u \<in> set ?reps \<union> {} \<or> par nodes u \<in> ?J" by simp
  qed (use reps_J jv in simp_all)
  have bound: "\<forall>r \<in> set ?reps. mh \<le> hgt nodes r \<and> nat (hgt nodes r) < fuel"
  proof
    fix r assume r: "r \<in> set ?reps"
    then have "nat (hgt nodes r) \<le> tree_depth nodes" using reps_val tree_depth_ge by simp
    with fuel mh(2) r show "mh \<le> hgt nodes r \<and> nat (hgt nodes r) < fuel" by simp
  qed
  from level_roots_ok [OF wf mh(3) inv0 bound]
  obtain S1 rs1 where l: "level_roots fuel nodes mh S ?reps = Some (S1, rs1)"
    "climb_inv nodes ?J (set ?reps) (skin_nodes S1) (set rs1)"
    "\<forall>r \<in> set rs1. hgt nodes r = mh" "length rs1 = length ?reps"
    by auto
  have ne1: "rs1 \<noteq> []" using l(4) reps_ne by auto
  have "hd ?reps \<in> set ?reps" using reps_ne by simp
  with bound have "mh \<le> hgt nodes (hd ?reps)" "nat (hgt nodes (hd ?reps)) < fuel" by simp_all
  then have "nat mh < fuel" by linarith
  from climb_to_same_parent_ok [OF wf l(2) ne1 l(3) this]
  obtain S' rs' where c: "climb_to_same_parent fuel nodes S1 rs1 = Some S'"
    "climb_inv nodes ?J (set ?reps) (skin_nodes S') (set rs')" "rs' \<noteq> []"
    "\<forall>r \<in> set rs'. par nodes r = par nodes (hd rs')"
    by blast
  have run: "capture_nodes_for_multirooted_skin fuel nodes S = Some S'"
    using two by (simp add: capture_nodes_for_multirooted_skin_def un Let_def mh(1) l(1) c(1))
  have cover: "\<forall>v \<in> ?J. \<exists>o' \<in> set ?reps. ?f v = ?f o'"
  proof
    fix v assume v: "v \<in> ?J"
    have "ds_parent ds v \<in> set ?reps"
      using inv els v by (simp add: get_representatives_def ds_inv_def)
    moreover have "?f v = ?f (ds_parent ds v)" using inv els v by (simp add: ds_inv_def)
    ultimately show "\<exists>o' \<in> set ?reps. ?f v = ?f o'" by blast
  qed
  have same: "\<forall>t1 \<in> tops nodes (skin_nodes S'). \<forall>t2 \<in> tops nodes (skin_nodes S').
       par nodes t1 = par nodes t2"
    using same_parent_tops [OF wf c(2) c(4) cover reps_J] by blast
  have val: "\<forall>x \<in> skin_nodes S'. valid_node nodes x" using c(2) by (simp add: climb_inv_def)
  have "?J \<subseteq> skin_nodes S'" using c(2) by (simp add: climb_inv_def)
  moreover have "?J \<noteq> {}" using reps_J reps_ne by auto
  ultimately have "skin_nodes S' \<noteq> {}" by auto
  with run val same show ?thesis using that by blast
qed

lemma capture_children_ok:
  assumes cap: "\<And>S n. valid_node nodes n \<Longrightarrow> H0 \<le> hgt nodes n \<Longrightarrow> skin_nodes S = V \<Longrightarrow>
      tree_depth nodes < fuel + nat (hgt nodes n) \<Longrightarrow>
      \<exists>S' b. capture_nodes_in_skin fuel nodes S n = Some (S', b) \<and> skin_nodes S' = V
        \<and> (b \<longrightarrow> n \<in> V)"
  shows "\<forall>c \<in> set cs. valid_node nodes c \<and> H0 \<le> hgt nodes c
           \<and> tree_depth nodes < fuel + nat (hgt nodes c) \<Longrightarrow>
    skin_nodes S = V \<Longrightarrow>
    \<exists>S' b'. capture_children fuel nodes S cs b = Some (S', b') \<and> skin_nodes S' = V
      \<and> (b' \<longrightarrow> b \<or> (\<exists>c \<in> set cs. c \<in> V))"
proof (induction cs arbitrary: S b)
  case Nil
  then show ?case by simp
next
  case (Cons c cs)
  from cap [of c S] Cons.prems
  obtain S1 r where c: "capture_nodes_in_skin fuel nodes S c = Some (S1, r)"
    "skin_nodes S1 = V" "r \<longrightarrow> c \<in> V"
    by auto
  from Cons.IH [OF _ c(2), of "b \<or> r"] Cons.prems(1)
  obtain S2 b' where r: "capture_children fuel nodes S1 cs (b \<or> r) = Some (S2, b')"
    "skin_nodes S2 = V" "b' \<longrightarrow> (b \<or> r) \<or> (\<exists>c \<in> set cs. c \<in> V)"
    by auto
  have "capture_children fuel nodes S (c # cs) b = Some (S2, b')"
    by (simp add: c(1) r(1))
  then show ?case using r(2,3) c(3) by auto
qed

lemma capture_nodes_in_skin_ok:
  assumes wf: "wf_nodes nodes"
    and low: "\<forall>c \<in> V. H0 < hgt nodes c \<longrightarrow> par nodes c \<in> V"
  shows "valid_node nodes n \<Longrightarrow> H0 \<le> hgt nodes n \<Longrightarrow> skin_nodes S = V \<Longrightarrow>
      tree_depth nodes < fuel + nat (hgt nodes n) \<Longrightarrow>
      \<exists>S' b. capture_nodes_in_skin fuel nodes S n = Some (S', b) \<and> skin_nodes S' = V
        \<and> (b \<longrightarrow> n \<in> V)"
proof (induction fuel arbitrary: S n)
  case 0
  from tree_depth_ge [OF "0.prems"(1)] "0.prems"(4) show ?case by simp
next
  case (Suc fuel)
  obtain node where node: "vget nodes n = Some node" "node_children node = kids nodes n"
    using vget_node [OF Suc.prems(1)] by blast
  have hn: "0 \<le> hgt nodes n" by (rule wf_hgt_nonneg [OF wf Suc.prems(1)])
  have kid: "valid_node nodes c \<and> par nodes c = n \<and> hgt nodes c = hgt nodes n + 1"
    if "c \<in> set (kids nodes n)" for c
  proof -
    from wf_kids [OF wf Suc.prems(1) that] have c: "valid_node nodes c" "par nodes c = n"
      by simp_all
    from wf_par_valid [OF wf c(1)] c(2) Suc.prems(1) show ?thesis using c by simp
  qed
  have kids: "\<forall>c \<in> set (kids nodes n). valid_node nodes c \<and> H0 \<le> hgt nodes c
           \<and> tree_depth nodes < fuel + nat (hgt nodes c)"
  proof
    fix c assume c: "c \<in> set (kids nodes n)"
    from kid [OF c] Suc.prems(2,4) hn
    show "valid_node nodes c \<and> H0 \<le> hgt nodes c \<and> tree_depth nodes < fuel + nat (hgt nodes c)"
      by (simp add: nat_add_distrib)
  qed
  have cap: "\<exists>S' b. capture_nodes_in_skin fuel nodes S n = Some (S', b) \<and> skin_nodes S' = V
        \<and> (b \<longrightarrow> n \<in> V)"
    if "valid_node nodes n" "H0 \<le> hgt nodes n" "skin_nodes S = V"
      "tree_depth nodes < fuel + nat (hgt nodes n)" for S n
    using that by (rule Suc.IH)
  have "\<exists>S' b'. capture_children fuel nodes S (kids nodes n) False = Some (S', b')
      \<and> skin_nodes S' = V \<and> (b' \<longrightarrow> False \<or> (\<exists>c \<in> set (kids nodes n). c \<in> V))"
    using cap kids Suc.prems(3) by (rule capture_children_ok)
  then obtain S1 found where ch: "capture_children fuel nodes S (kids nodes n) False = Some (S1, found)"
    "skin_nodes S1 = V" "found \<longrightarrow> (\<exists>c \<in> set (kids nodes n). c \<in> V)"
    by auto
  define S2 where "S2 = (if found then mark_node node S1 n else S1)"
  have nV: "n \<in> V" if found
  proof -
    from ch(3) that obtain c where c: "c \<in> set (kids nodes n)" "c \<in> V" by blast
    from kid [OF c(1)] Suc.prems(2) have "H0 < hgt nodes c" "par nodes c = n" by simp_all
    with low c(2) show ?thesis by auto
  qed
  have V2: "skin_nodes S2 = V"
    using ch(2) nV by (auto simp: S2_def mark_node_nodes)
  have run: "capture_nodes_in_skin (Suc fuel) nodes S n
             = Some (S2, 0 < vfind (skin_joints S2) n)"
    by (simp add: node ch(1) Let_def S2_def)
  have "0 < vfind (skin_joints S2) n \<longrightarrow> n \<in> V"
    using vfind_pos_mem [of "skin_joints S2" n] V2 by (auto simp: skin_nodes_def)
  with run V2 show ?case by simp
qed

lemma capture_roots_ok:
  assumes wf: "wf_nodes nodes"
    and low: "\<forall>c \<in> V. H0 < hgt nodes c \<longrightarrow> par nodes c \<in> V"
    and fuel: "tree_depth nodes < fuel"
  shows "\<forall>r \<in> set rs. valid_node nodes r \<and> H0 \<le> hgt nodes r \<Longrightarrow> skin_nodes S = V \<Longrightarrow>
    \<exists>S'. capture_roots fuel nodes S rs = Some S' \<and> skin_nodes S' = V"
proof (induction rs arbitrary: S)
  case Nil
  then show ?case by simp
next
  case (Cons r rs)
  have "tree_depth nodes < fuel + nat (hgt nodes r)" using fuel by simp
  from capture_nodes_in_skin_ok [OF wf low _ _ Cons.prems(2) this] Cons.prems(1)
  obtain S1 b where c: "capture_nodes_in_skin fuel nodes S r = Some (S1, b)" "skin_nodes S1 = V"
    by auto
  from Cons.IH [OF _ c(2)] Cons.prems(1)
  obtain S2 where "capture_roots fuel nodes S1 rs = Some S2" "skin_nodes S2 = V" by auto
  then show ?case by (simp add: c(1))
qed

lemma same_parent_loop_ok:
  "\<forall>r \<in> set rs. valid_node nodes r \<and> par nodes r = P \<Longrightarrow>
   same_parent_loop nodes P rs = Some OK"
proof (induction rs)
  case Nil
  then show ?case by simp
next
  case (Cons r rs)
  then have "valid_node nodes r" by simp
  then obtain node where "vget nodes r = Some node" "node_parent node = par nodes r"
    using vget_node by blast
  with Cons show ?case by simp
qed

lemma same_parent_same_height:
  assumes wf: "wf_nodes nodes" and a: "valid_node nodes a" and b: "valid_node nodes b"
    and eq: "par nodes a = par nodes b"
  shows "hgt nodes a = hgt nodes b"
proof (cases "par nodes a = -1")
  case True
  then show ?thesis using wf_root [OF wf a] wf_root [OF wf b] eq by simp
next
  case False
  then have "valid_node nodes (par nodes a)" using wf_par_cases [OF wf a] by simp
  then show ?thesis using wf_par_valid [OF wf a] wf_par_valid [OF wf b] eq by simp
qed

subsection \<open>Skins: expansion of a multi-rooted skin\<close>

lemma expand_verify_ok:
  assumes wf: "wf_nodes nodes"
    and jv: "\<forall>j \<in> set (skin_joints p_skin). valid_node nodes j"
    and nj: "skin_non_joints p_skin = []"
    and un: "union_pass nodes (skin_joints p_skin) = Some ds"
    and two: "2 \<le> length (get_representatives ds)"
    and fuel: "tree_depth nodes < fuel"
  shows "\<exists>skin'. expand_skin fuel nodes p_skin = Some (OK, skin') \<and> skin_roots skin' \<noteq> []
           \<and> (\<exists>P. par nodes ` set (skin_roots skin') = {P})
           \<and> verify_skin nodes skin' = Some OK"
proof -
  from multirooted_ok [OF wf jv nj un two fuel]
  obtain S1 where m: "capture_nodes_for_multirooted_skin fuel nodes p_skin = Some S1"
    and val: "\<forall>x \<in> skin_nodes S1. valid_node nodes x" and ne: "skin_nodes S1 \<noteq> {}"
    and same: "\<forall>t1 \<in> tops nodes (skin_nodes S1). \<forall>t2 \<in> tops nodes (skin_nodes S1).
                 par nodes t1 = par nodes t2"
    by blast
  define V where "V = skin_nodes S1"
  define R where "R = sorted_list_of_set (tops nodes V)"
  have all1: "set (skin_joints S1 @ skin_non_joints S1) = V"
    by (simp add: V_def skin_nodes_def)
  have val1: "\<forall>x \<in> set (skin_joints S1 @ skin_non_joints S1). valid_node nodes x"
    using val unfolding all1 V_def .
  have roots1: "compute_roots nodes (skin_joints S1 @ skin_non_joints S1) = Some (Some R)"
    using compute_roots_ok [OF wf val1] unfolding all1 R_def .
  have setR: "set R = tops nodes V"
    using sorted_tops [OF val1] unfolding all1 R_def .
  have valV: "\<forall>x \<in> V. valid_node nodes x" using val by (simp add: V_def)
  from ne obtain v where v: "v \<in> V" by (auto simp: V_def)
  from top_of_props [OF wf valV v] have "top_of nodes V v \<in> tops nodes V"
    by (simp add: tops_def)
  then have Rne: "R \<noteq> []" using setR by auto
  then obtain r0 others where R: "R = r0 # others" by (cases R) auto
  have r0: "r0 \<in> tops nodes V" using setR R by auto
  have topsV: "valid_node nodes t \<and> par nodes t = par nodes r0" if "t \<in> tops nodes V" for t
  proof -
    from that have "t \<in> V" by (simp add: tops_def)
    with valV have "valid_node nodes t" by simp
    moreover from same [folded V_def] that r0 have "par nodes t = par nodes r0" by blast
    ultimately show ?thesis by simp
  qed
  define H0 where "H0 = hgt nodes r0"
  have r0v: "valid_node nodes r0" using topsV [OF r0] by simp
  have hR: "hgt nodes t = H0" if "t \<in> tops nodes V" for t
    unfolding H0_def using same_parent_same_height [OF wf _ r0v] topsV [OF that] by simp
  have low: "\<forall>c \<in> V. H0 < hgt nodes c \<longrightarrow> par nodes c \<in> V"
  proof (intro ballI impI)
    fix c assume c: "c \<in> V" "H0 < hgt nodes c"
    show "par nodes c \<in> V"
    proof (rule ccontr)
      assume "par nodes c \<notin> V"
      with c(1) have "c \<in> tops nodes V" by (simp add: tops_def)
      from hR [OF this] c(2) show False by simp
    qed
  qed
  have Rok: "\<forall>r \<in> set R. valid_node nodes r \<and> H0 \<le> hgt nodes r"
  proof
    fix r assume "r \<in> set R"
    then have "r \<in> tops nodes V" using setR by simp
    from topsV [OF this] hR [OF this] show "valid_node nodes r \<and> H0 \<le> hgt nodes r" by simp
  qed
  have "skin_nodes S1 = V" by (simp add: V_def)
  with wf low fuel Rok have "\<exists>S'. capture_roots fuel nodes S1 R = Some S' \<and> skin_nodes S' = V"
    by (rule capture_roots_ok)
  then obtain S2 where c: "capture_roots fuel nodes S1 R = Some S2" "skin_nodes S2 = V"
    by blast
  define skin' where "skin' = S2\<lparr>skin_roots := R\<rparr>"
  have run: "expand_skin fuel nodes p_skin = Some (OK, skin')"
    by (simp add: expand_skin_def m roots1 c(1) skin'_def)
  have all2: "set (skin_joints skin' @ skin_non_joints skin') = V"
    using c(2) by (simp add: skin'_def skin_nodes_def)
  have val2: "\<forall>x \<in> set (skin_joints skin' @ skin_non_joints skin'). valid_node nodes x"
    using valV unfolding all2 .
  have roots2: "compute_roots nodes (skin_joints skin' @ skin_non_joints skin') = Some (Some R)"
    using compute_roots_ok [OF wf val2] unfolding all2 R_def .
  have stored: "skin_roots skin' = R" by (simp add: skin'_def)
  obtain node where node: "vget nodes r0 = Some node" "node_parent node = par nodes r0"
    using vget_node [OF r0v] by blast
  have "\<forall>r \<in> set others. valid_node nodes r \<and> par nodes r = par nodes r0"
  proof
    fix r assume "r \<in> set others"
    then have "r \<in> tops nodes V" using setR R by auto
    then show "valid_node nodes r \<and> par nodes r = par nodes r0" by (rule topsV)
  qed
  then have loop: "same_parent_loop nodes (par nodes r0) others = Some OK"
    by (rule same_parent_loop_ok)
  have verify: "verify_skin nodes skin' = Some OK"
    by (simp add: verify_skin_def roots2 stored R node loop)
  have "par nodes ` set R = {par nodes r0}"
  proof (intro set_eqI iffI)
    fix p assume "p \<in> par nodes ` set R"
    then obtain r where "r \<in> tops nodes V" "p = par nodes r" using setR by auto
    with topsV [of r] show "p \<in> {par nodes r0}" by simp
  next
    fix p assume "p \<in> {par nodes r0}"
    then show "p \<in> par nodes ` set R" using R by simp
  qed
  then have "\<exists>P. par nodes ` set (skin_roots skin') = {P}" unfolding stored by blast
  moreover have "skin_roots skin' \<noteq> []" using Rne stored by simp
  ultimately have "expand_skin fuel nodes p_skin = Some (OK, skin') \<and> skin_roots skin' \<noteq> []
           \<and> (\<exists>P. par nodes ` set (skin_roots skin') = {P})
           \<and> verify_skin nodes skin' = Some OK"
    using run verify by (intro conjI)
  then show ?thesis by (rule exI)
qed

text \<open>
  Claim C1. In a well-formed node hierarchy, for a skin with joints and no other nodes yet,
  whose joints give two or more representatives in the union pass:
  \<^verbatim>\<open>_expand_skin\<close> (which starts with \<^verbatim>\<open>_capture_nodes_for_multirooted_skin\<close>) returns,
  with \<^verbatim>\<open>OK\<close>, as soon as the bound on the recursion exceeds the greatest height of a
  node; the roots of the expanded skin are not empty and all have the same parent; and
  \<^verbatim>\<open>_verify_skin\<close> returns \<^verbatim>\<open>OK\<close> for the expanded skin.
\<close>

theorem multirooted_skin_expansion:
  assumes "wf_nodes nodes"
    and "list_all (valid_node nodes) (skin_joints p_skin)"
    and "skin_non_joints p_skin = []"
    and "multirooted nodes p_skin"
    and "tree_depth nodes < fuel"
  shows "\<exists>skin'. expand_skin fuel nodes p_skin = Some (OK, skin') \<and> skin_roots skin' \<noteq> []
           \<and> (\<exists>P. par nodes ` set (skin_roots skin') = {P})
           \<and> verify_skin nodes skin' = Some OK"
proof -
  from assms(4) obtain ds where ds: "union_pass nodes (skin_joints p_skin) = Some ds"
    "2 \<le> length (get_representatives ds)"
    by (auto simp: multirooted_def split: option.splits)
  have jv: "\<forall>j \<in> set (skin_joints p_skin). valid_node nodes j"
    using assms(2) by (simp add: list_all_iff)
  show ?thesis by (rule expand_verify_ok [OF assms(1) jv assms(3) ds assms(5)])
qed

lemma forked_expansion:
  "expand_skin 4 forked_nodes forked_skin =
     Some (OK, \<lparr>skin_joints = [2, 3, 5], skin_non_joints = [1, 4, 3], skin_roots = [1, 3]\<rparr>)"
  by code_simp

theorem multirooted_skin_expansion_witness:
  "wf_nodes forked_nodes \<and> multirooted forked_nodes forked_skin
   \<and> tree_depth forked_nodes < 4
   \<and> (\<exists>skin'. expand_skin 4 forked_nodes forked_skin = Some (OK, skin')
         \<and> skin_roots skin' = [1, 3]
         \<and> (\<exists>P. par forked_nodes ` set (skin_roots skin') = {P})
         \<and> verify_skin forked_nodes skin' = Some OK)"
proof -
  have 1: "wf_nodes forked_nodes" by code_simp
  have 2: "list_all (valid_node forked_nodes) (skin_joints forked_skin)" by code_simp
  have 3: "skin_non_joints forked_skin = []" by (simp add: forked_skin_def)
  have 4: "multirooted forked_nodes forked_skin" by code_simp
  have 5: "tree_depth forked_nodes < 4" by code_simp
  from multirooted_skin_expansion [OF 1 2 3 4 5]
  obtain skin' where s: "expand_skin 4 forked_nodes forked_skin = Some (OK, skin')"
    "\<exists>P. par forked_nodes ` set (skin_roots skin') = {P}"
    "verify_skin forked_nodes skin' = Some OK"
    by blast
  from s(1) have "skin_roots skin' = [1, 3]" by (auto simp: forked_expansion)
  with 1 4 5 s show ?thesis by blast
qed

subsection \<open>Skins: a skin below one joint\<close>

lemma up_shift: "up nodes k (par nodes v) = up nodes (Suc k) v"
  by (simp add: up_def funpow_swap1)

lemma hgt_up:
  assumes wf: "wf_nodes nodes"
  shows "valid_node nodes (up nodes k v) \<Longrightarrow>
         valid_node nodes v \<and> hgt nodes (up nodes k v) = hgt nodes v - int k"
proof (induction k)
  case 0
  then show ?case by simp
next
  case (Suc k)
  then have p: "valid_node nodes (par nodes (up nodes k v))" by (simp add: up_Suc)
  then have v: "valid_node nodes (up nodes k v)"
    using par_invalid [of nodes "up nodes k v"] by (auto simp: valid_node_def)
  from wf_par_valid [OF wf v p] Suc.IH [OF v] show ?case by (simp add: up_Suc)
qed

lemma below_refl: "below nodes a a"
  unfolding below_def by (rule exI [of _ 0]) simp

lemma below_par:
  assumes "below nodes a v" "v \<noteq> a"
  shows "below nodes a (par nodes v)"
proof -
  from assms(1) obtain k where k: "up nodes k v = a" by (auto simp: below_def)
  with assms(2) obtain k' where "k = Suc k'" by (cases k) auto
  with k have "up nodes k' (par nodes v) = a" by (simp add: up_shift)
  then show ?thesis by (auto simp: below_def)
qed

lemma below_hgt:
  assumes wf: "wf_nodes nodes" and a: "valid_node nodes a" and b: "below nodes a v"
  shows "valid_node nodes v \<and> hgt nodes a \<le> hgt nodes v \<and> (hgt nodes v = hgt nodes a \<longrightarrow> v = a)"
proof -
  from b obtain k where k: "up nodes k v = a" by (auto simp: below_def)
  from hgt_up [OF wf, of k v] a k
  have "valid_node nodes v" "hgt nodes a = hgt nodes v - int k" by simp_all
  moreover have "v = a" if "k = 0" using that k by simp
  ultimately show ?thesis by auto
qed

lemma ancestors_below: "a \<in> set (ancestors nodes v) \<Longrightarrow> below nodes a v"
  by (auto simp: ancestors_def below_def)

lemma is_joint_Some: "vget nodes v = Some node \<Longrightarrow> is_joint nodes v = node_joint node"
  by (simp add: is_joint_def)

lemma mark_node_joints:
  assumes "vget nodes i = Some node"
  shows "set (skin_joints (mark_node node S i)) \<subseteq> set (skin_joints S) \<union> {v. is_joint nodes v}"
  using is_joint_Some [OF assms] by (auto simp: mark_node_def)

lemma mark_node_below:
  assumes "kept_below nodes a J S" "vget nodes i = Some node" "below nodes a i"
  shows "kept_below nodes a J (mark_node node S i)"
proof -
  note j = mark_node_joints [OF assms(2), of S]
  show ?thesis
    unfolding kept_below_def mark_node_nodes
    using assms(1,3) j by (auto simp: kept_below_def)
qed

lemma climb_to_height_below:
  assumes wf: "wf_nodes nodes" and a: "valid_node nodes a" and mh: "hgt nodes a \<le> mh"
  shows "climb_to_height fuel nodes mh S cur = Some (S', cur') \<Longrightarrow> below nodes a cur \<Longrightarrow>
    kept_below nodes a J S \<Longrightarrow>
    kept_below nodes a J S' \<and> below nodes a cur' \<and> (mh \<le> hgt nodes cur \<longrightarrow> hgt nodes cur' = mh)"
proof (induction fuel arbitrary: S cur)
  case 0
  then show ?case by simp
next
  case (Suc fuel)
  from Suc.prems(1) obtain node where node: "vget nodes cur = Some node"
    by (auto split: option.splits)
  show ?case
  proof (cases "mh < node_height node")
    case True
    with Suc.prems(1) node obtain pnode where
      pnode: "vget nodes (node_parent node) = Some pnode"
      and rec: "climb_to_height fuel nodes mh (mark_node pnode S (node_parent node))
                  (node_parent node) = Some (S', cur')"
      by (auto simp: Let_def split: option.splits)
    have "hgt nodes a < hgt nodes cur" using True mh hgt_Some [OF node] by simp
    then have "cur \<noteq> a" by auto
    from below_par [OF Suc.prems(2) this] par_Some [OF node]
    have bp: "below nodes a (node_parent node)" by simp
    have kb: "kept_below nodes a J (mark_node pnode S (node_parent node))"
      by (rule mark_node_below [OF Suc.prems(3) pnode bp])
    have "hgt nodes cur = hgt nodes (node_parent node) + 1"
      using wf_par_valid [OF wf vget_Some_valid [OF node]] vget_Some_valid [OF pnode]
        par_Some [OF node] by simp
    then have "mh \<le> hgt nodes (node_parent node)" using True hgt_Some [OF node] by simp
    with Suc.IH [OF rec bp kb] show ?thesis by simp
  next
    case False
    with Suc.prems(1) node have "S' = S" "cur' = cur" by simp_all
    with Suc.prems(2,3) False hgt_Some [OF node] show ?thesis by auto
  qed
qed

lemma level_roots_below:
  assumes wf: "wf_nodes nodes" and a: "valid_node nodes a" and mh: "hgt nodes a \<le> mh"
  shows "level_roots fuel nodes mh S rs = Some (S', rs') \<Longrightarrow>
    \<forall>r \<in> set rs. below nodes a r \<and> mh \<le> hgt nodes r \<Longrightarrow>
    kept_below nodes a J S \<Longrightarrow>
    kept_below nodes a J S' \<and> (\<forall>r \<in> set rs'. below nodes a r \<and> hgt nodes r = mh)"
proof (induction rs arbitrary: S rs' S')
  case Nil
  then show ?case by simp
next
  case (Cons r rs)
  from Cons.prems(1) obtain S1 cur S2 rs1 where
    c: "climb_to_height fuel nodes mh S r = Some (S1, cur)"
    and l: "level_roots fuel nodes mh S1 rs = Some (S2, rs1)"
    and res: "S' = S2" "rs' = cur # rs1"
    by (auto split: option.splits)
  from climb_to_height_below [OF wf a mh c _ Cons.prems(3)] Cons.prems(2)
  have 1: "kept_below nodes a J S1" "below nodes a cur" "hgt nodes cur = mh" by simp_all
  from Cons.IH [OF l _ 1(1)] Cons.prems(2)
  have "kept_below nodes a J S2" "\<forall>r \<in> set rs1. below nodes a r \<and> hgt nodes r = mh"
    by simp_all
  with 1(2,3) res show ?case by simp
qed

lemma climb_all_below:
  shows "climb_all nodes S rs = Some (S', rs') \<Longrightarrow> \<forall>r \<in> set rs. below nodes a r \<and> r \<noteq> a \<Longrightarrow>
    kept_below nodes a J S \<Longrightarrow>
    kept_below nodes a J S' \<and> rs' = map (par nodes) rs \<and> (\<forall>r \<in> set rs'. below nodes a r)"
proof (induction rs arbitrary: S rs' S')
  case Nil
  then show ?case by simp
next
  case (Cons r rs)
  from Cons.prems(1) obtain node pnode S2 rs1 where
    node: "vget nodes r = Some node" and pnode: "vget nodes (node_parent node) = Some pnode"
    and rec: "climb_all nodes (mark_node pnode S (node_parent node)) rs = Some (S2, rs1)"
    and res: "S' = S2" "rs' = node_parent node # rs1"
    by (auto simp: Let_def split: option.splits)
  have p: "node_parent node = par nodes r" using par_Some [OF node] by simp
  have bp: "below nodes a (node_parent node)"
    unfolding p using below_par [of nodes a r] Cons.prems(2) by simp
  have "kept_below nodes a J (mark_node pnode S (node_parent node))"
    by (rule mark_node_below [OF Cons.prems(3) pnode bp])
  from Cons.IH [OF rec _ this] Cons.prems(2)
  have "kept_below nodes a J S2" "rs1 = map (par nodes) rs" "\<forall>r \<in> set rs1. below nodes a r"
    by simp_all
  with res p bp show ?case by simp
qed

lemma climb_to_same_parent_below:
  assumes wf: "wf_nodes nodes" and a: "valid_node nodes a"
  shows "climb_to_same_parent fuel nodes S rs = Some S' \<Longrightarrow>
    \<forall>r \<in> set rs. below nodes a r \<and> hgt nodes r = H \<Longrightarrow>
    kept_below nodes a J S \<Longrightarrow> kept_below nodes a J S'"
proof (induction fuel arbitrary: S rs H)
  case 0
  then show ?case by simp
next
  case (Suc fuel)
  have val: "\<forall>r \<in> set rs. valid_node nodes r"
    using below_hgt [OF wf a] Suc.prems(2) by blast
  have parents: "parents_of nodes rs = Some (map (par nodes) rs)"
    by (rule parents_of_ok [OF val])
  show ?case
  proof (cases "map (par nodes) rs")
    case Nil
    with Suc.prems(1) parents show ?thesis by simp
  next
    case (Cons p0 others)
    show ?thesis
    proof (cases "list_all (\<lambda>p. p0 = p) others")
      case True
      with Suc.prems(1) parents Cons have "S' = S" by simp
      with Suc.prems(3) show ?thesis by simp
    next
      case False
      with Suc.prems(1) parents Cons obtain S1 rs1 where
        ca: "climb_all nodes S rs = Some (S1, rs1)"
        and rec: "climb_to_same_parent fuel nodes S1 rs1 = Some S'"
        by (auto split: option.splits)
      have ne: "\<forall>r \<in> set rs. r \<noteq> a"
      proof (rule ccontr)
        assume "\<not> (\<forall>r \<in> set rs. r \<noteq> a)"
        then have "a \<in> set rs" by auto
        with Suc.prems(2) have H: "H = hgt nodes a" by auto
        have "\<forall>r \<in> set rs. r = a"
          using below_hgt [OF wf a] Suc.prems(2) H by blast
        then have "\<forall>p \<in> set (map (par nodes) rs). p = par nodes a" by auto
        then have "list_all (\<lambda>p. p0 = p) others" unfolding Cons by (auto simp: list_all_iff)
        with False show False by simp
      qed
      from climb_all_below [OF ca _ Suc.prems(3)] Suc.prems(2) ne
      have 1: "kept_below nodes a J S1" "rs1 = map (par nodes) rs"
        "\<forall>r \<in> set rs1. below nodes a r"
        by simp_all
      have "\<forall>r \<in> set rs1. below nodes a r \<and> hgt nodes r = H - 1"
      proof
        fix p assume p: "p \<in> set rs1"
        then obtain r where r: "r \<in> set rs" "p = par nodes r" using 1(2) by auto
        have bp: "below nodes a p" using 1(3) p by simp
        then have "valid_node nodes p" using below_hgt [OF wf a] by blast
        with wf_par_valid [OF wf _ _] val r have "hgt nodes r = hgt nodes p + 1" by simp
        with Suc.prems(2) r(1) bp show "below nodes a p \<and> hgt nodes p = H - 1" by simp
      qed
      from Suc.IH [OF rec this 1(1)] show ?thesis .
    qed
  qed
qed

lemma max_height_loop_mem:
  "max_height_loop nodes rs m = Some m' \<Longrightarrow> m' = m \<or> m' \<in> hgt nodes ` set rs"
proof (induction rs arbitrary: m)
  case Nil
  then show ?case by simp
next
  case (Cons r rs)
  from Cons.prems obtain node where node: "vget nodes r = Some node"
    by (auto split: option.splits)
  show ?case
  proof (cases "m = -1 \<or> node_height node < m")
    case True
    with Cons.prems node have "max_height_loop nodes rs (node_height node) = Some m'" by simp
    from Cons.IH [OF this] hgt_Some [OF node] show ?thesis by auto
  next
    case False
    with Cons.prems node have "max_height_loop nodes rs m = Some m'" by simp
    from Cons.IH [OF this] show ?thesis by auto
  qed
qed

lemma multirooted_below:
  assumes wf: "wf_nodes nodes"
    and jv: "\<forall>j \<in> set (skin_joints S). valid_node nodes j"
    and nj: "skin_non_joints S = []"
    and a: "valid_node nodes a"
    and bel: "\<forall>u \<in> set (skin_joints S). below nodes a u"
    and run: "capture_nodes_for_multirooted_skin fuel nodes S = Some S'"
  shows "kept_below nodes a (set (skin_joints S)) S'"
proof -
  let ?J = "set (skin_joints S)"
  have V0: "skin_nodes S = ?J" by (simp add: skin_nodes_def nj)
  have k0: "kept_below nodes a ?J S" using bel by (auto simp: kept_below_def V0)
  from union_pass_ok [OF wf jv] obtain ds where un: "union_pass nodes (skin_joints S) = Some ds"
    and els: "set (ds_elements ds) = ?J"
    by blast
  let ?reps = "get_representatives ds"
  show ?thesis
  proof (cases "length ?reps \<le> 1")
    case True
    with run un have "S' = S" by (simp add: capture_nodes_for_multirooted_skin_def Let_def)
    with k0 show ?thesis by simp
  next
    case False
    with run un obtain mh S1 rs1 where
      m: "max_height_loop nodes ?reps (-1) = Some mh"
      and l: "level_roots fuel nodes mh S ?reps = Some (S1, rs1)"
      and c: "climb_to_same_parent fuel nodes S1 rs1 = Some S'"
      by (auto simp: capture_nodes_for_multirooted_skin_def Let_def split: option.splits)
    have reps_J: "set ?reps \<subseteq> ?J" using els by (auto simp: get_representatives_def)
    have reps_ne: "?reps \<noteq> []" using False by auto
    have reps_val: "\<forall>r \<in> set ?reps. valid_node nodes r" using reps_J jv by auto
    from max_height_loop_ok [OF wf reps_val, of "-1"] m reps_ne
    have mh: "\<forall>r \<in> set ?reps. mh \<le> hgt nodes r" "mh \<noteq> -1" by auto
    from max_height_loop_mem [OF m] mh(2) obtain r where r: "r \<in> set ?reps" "mh = hgt nodes r"
      by auto
    then have "below nodes a r" using reps_J bel by auto
    from below_hgt [OF wf a this] r(2) have amh: "hgt nodes a \<le> mh" by simp
    have "\<forall>r \<in> set ?reps. below nodes a r \<and> mh \<le> hgt nodes r"
      using reps_J bel mh(1) by auto
    from level_roots_below [OF wf a amh l this k0]
    have 1: "kept_below nodes a ?J S1" "\<forall>r \<in> set rs1. below nodes a r \<and> hgt nodes r = mh"
      by simp_all
    show ?thesis by (rule climb_to_same_parent_below [OF wf a c 1(2) 1(1)])
  qed
qed

lemma capture_joints_tagged:
  "capture_nodes_in_skin fuel nodes S n = Some (S', b) \<Longrightarrow>
     set (skin_joints S') \<subseteq> set (skin_joints S) \<union> {v. is_joint nodes v}"
  "capture_children fuel nodes S cs b0 = Some (S', b) \<Longrightarrow>
     set (skin_joints S') \<subseteq> set (skin_joints S) \<union> {v. is_joint nodes v}"
proof (induction fuel nodes S n and fuel nodes S cs b0 arbitrary: S' b and S' b
    rule: capture_nodes_in_skin_capture_children.induct)
  case (1 nodes p_skin p_node_index)
  then show ?case by simp
next
  case (2 fuel nodes p_skin p_node_index)
  from "2.prems" obtain node skin1 found where
    node: "vget nodes p_node_index = Some node"
    and ch: "capture_children fuel nodes p_skin (node_children node) False = Some (skin1, found)"
    and res: "S' = (if found then mark_node node skin1 p_node_index else skin1)"
    by (auto simp: Let_def split: option.splits)
  from "2.IH" [OF node ch]
  have "set (skin_joints skin1) \<subseteq> set (skin_joints p_skin) \<union> {v. is_joint nodes v}" .
  with mark_node_joints [OF node, of skin1] res show ?case by auto
next
  case (3 fuel nodes p_skin found_joint)
  then show ?case by simp
next
  case (4 fuel nodes p_skin child rest found_joint)
  from "4.prems" obtain skin1 r where
    c: "capture_nodes_in_skin fuel nodes p_skin child = Some (skin1, r)"
    and rec: "capture_children fuel nodes skin1 rest (found_joint \<or> r) = Some (S', b)"
    by (auto split: option.splits)
  from "4.IH"(1) [OF c]
  have 1: "set (skin_joints skin1) \<subseteq> set (skin_joints p_skin) \<union> {v. is_joint nodes v}" .
  from "4.IH"(2) [OF c refl rec]
  have "set (skin_joints S') \<subseteq> set (skin_joints skin1) \<union> {v. is_joint nodes v}" .
  with 1 show ?case by auto
qed

lemma capture_roots_tagged:
  "capture_roots fuel nodes S rs = Some S' \<Longrightarrow>
     set (skin_joints S') \<subseteq> set (skin_joints S) \<union> {v. is_joint nodes v}"
proof (induction rs arbitrary: S)
  case Nil
  then show ?case by simp
next
  case (Cons r rs)
  from Cons.prems obtain S1 b where c: "capture_nodes_in_skin fuel nodes S r = Some (S1, b)"
    and rec: "capture_roots fuel nodes S1 rs = Some S'"
    by (auto split: option.splits)
  from capture_joints_tagged(1) [OF c] Cons.IH [OF rec] show ?case by auto
qed

subsection \<open>Skins: the skip-level scenario\<close>

lemma expand_skin_result:
  assumes wf: "wf_nodes nodes"
    and jv: "\<forall>j \<in> set (skin_joints p_skin). valid_node nodes j"
    and nj: "skin_non_joints p_skin = []"
    and un: "union_pass nodes (skin_joints p_skin) = Some ds"
    and two: "2 \<le> length (get_representatives ds)"
    and fuel: "tree_depth nodes < fuel"
  obtains S1 S2 where "capture_nodes_for_multirooted_skin fuel nodes p_skin = Some S1"
    "\<forall>x \<in> skin_nodes S1. valid_node nodes x"
    "\<forall>t1 \<in> tops nodes (skin_nodes S1). \<forall>t2 \<in> tops nodes (skin_nodes S1).
       par nodes t1 = par nodes t2"
    "capture_roots fuel nodes S1 (sorted_list_of_set (tops nodes (skin_nodes S1))) = Some S2"
    "skin_nodes S2 = skin_nodes S1"
    "expand_skin fuel nodes p_skin
       = Some (OK, S2\<lparr>skin_roots := sorted_list_of_set (tops nodes (skin_nodes S1))\<rparr>)"
proof -
  have "\<exists>S1. capture_nodes_for_multirooted_skin fuel nodes p_skin = Some S1
      \<and> (\<forall>x \<in> skin_nodes S1. valid_node nodes x)
      \<and> (\<forall>t1 \<in> tops nodes (skin_nodes S1). \<forall>t2 \<in> tops nodes (skin_nodes S1).
                 par nodes t1 = par nodes t2)"
  proof (rule multirooted_ok [OF wf jv nj un two fuel])
    fix S'
    assume "capture_nodes_for_multirooted_skin fuel nodes p_skin = Some S'"
      and "\<forall>x \<in> skin_nodes S'. valid_node nodes x"
      and "\<forall>t1 \<in> tops nodes (skin_nodes S'). \<forall>t2 \<in> tops nodes (skin_nodes S').
                 par nodes t1 = par nodes t2"
    then show ?thesis by (intro exI [of _ S'] conjI)
  qed
  then obtain S1 where ex: "capture_nodes_for_multirooted_skin fuel nodes p_skin = Some S1
      \<and> (\<forall>x \<in> skin_nodes S1. valid_node nodes x)
      \<and> (\<forall>t1 \<in> tops nodes (skin_nodes S1). \<forall>t2 \<in> tops nodes (skin_nodes S1).
                 par nodes t1 = par nodes t2)"
    by (rule exE)
  note m = conjunct1 [OF ex] and val = conjunct1 [OF conjunct2 [OF ex]]
    and same = conjunct2 [OF conjunct2 [OF ex]]
  define V where "V = skin_nodes S1"
  define R where "R = sorted_list_of_set (tops nodes V)"
  have all1: "set (skin_joints S1 @ skin_non_joints S1) = V"
    by (simp add: V_def skin_nodes_def)
  have val1: "\<forall>x \<in> set (skin_joints S1 @ skin_non_joints S1). valid_node nodes x"
    using val unfolding all1 V_def .
  have roots1: "compute_roots nodes (skin_joints S1 @ skin_non_joints S1) = Some (Some R)"
    using compute_roots_ok [OF wf val1] unfolding all1 R_def .
  have setR: "set R = tops nodes V"
    using sorted_tops [OF val1] unfolding all1 R_def .
  have valV: "\<forall>x \<in> V. valid_node nodes x" using val by (simp add: V_def)
  have low: "\<forall>c \<in> V. H0 < hgt nodes c \<longrightarrow> par nodes c \<in> V"
    and Rok: "\<forall>r \<in> set R. valid_node nodes r \<and> H0 \<le> hgt nodes r"
    if H0: "\<forall>t \<in> tops nodes V. hgt nodes t = H0" for H0
  proof -
    show "\<forall>c \<in> V. H0 < hgt nodes c \<longrightarrow> par nodes c \<in> V"
    proof (intro ballI impI)
      fix c assume c: "c \<in> V" "H0 < hgt nodes c"
      show "par nodes c \<in> V"
      proof (rule ccontr)
        assume "par nodes c \<notin> V"
        with c(1) have "c \<in> tops nodes V" by (simp add: tops_def)
        with H0 c(2) show False by auto
      qed
    qed
    show "\<forall>r \<in> set R. valid_node nodes r \<and> H0 \<le> hgt nodes r"
    proof
      fix r assume "r \<in> set R"
      then have r: "r \<in> tops nodes V" using setR by simp
      then have "r \<in> V" by (simp add: tops_def)
      with valV H0 r show "valid_node nodes r \<and> H0 \<le> hgt nodes r" by simp
    qed
  qed
  have "\<exists>H0. \<forall>t \<in> tops nodes V. hgt nodes t = H0"
  proof (cases "tops nodes V = {}")
    case True
    then show ?thesis by simp
  next
    case False
    then obtain r0 where r0: "r0 \<in> tops nodes V" by auto
    have "\<forall>t \<in> tops nodes V. hgt nodes t = hgt nodes r0"
    proof
      fix t assume t: "t \<in> tops nodes V"
      have "valid_node nodes t" "valid_node nodes r0" using t r0 valV by (auto simp: tops_def)
      moreover have "par nodes t = par nodes r0" using same [folded V_def] t r0 by blast
      ultimately show "hgt nodes t = hgt nodes r0" by (rule same_parent_same_height [OF wf])
    qed
    then show ?thesis by blast
  qed
  then obtain H0 where H0: "\<forall>t \<in> tops nodes V. hgt nodes t = H0" by blast
  have "skin_nodes S1 = V" by (simp add: V_def)
  with wf low [OF H0] fuel Rok [OF H0]
  have "\<exists>S'. capture_roots fuel nodes S1 R = Some S' \<and> skin_nodes S' = V"
    by (rule capture_roots_ok)
  then obtain S2 where c: "capture_roots fuel nodes S1 R = Some S2" "skin_nodes S2 = V"
    by blast
  have run: "expand_skin fuel nodes p_skin = Some (OK, S2\<lparr>skin_roots := R\<rparr>)"
    by (simp add: expand_skin_def m roots1 c(1))
  show ?thesis
  proof (rule that [OF m val same])
    show "capture_roots fuel nodes S1 (sorted_list_of_set (tops nodes (skin_nodes S1))) = Some S2"
      using c(1) by (simp only: R_def V_def)
    show "skin_nodes S2 = skin_nodes S1" using c(2) by (simp only: V_def)
    show "expand_skin fuel nodes p_skin
       = Some (OK, S2\<lparr>skin_roots := sorted_list_of_set (tops nodes (skin_nodes S1))\<rparr>)"
      using run by (simp only: R_def V_def)
  qed
qed

lemma two_in_list: "x \<in> set xs \<Longrightarrow> y \<in> set xs \<Longrightarrow> x \<noteq> y \<Longrightarrow> 2 \<le> length xs"
proof (cases xs)
  case Nil
  assume "x \<in> set xs" with Nil show ?thesis by simp
next
  case (Cons a ys)
  assume "x \<in> set xs" "y \<in> set xs" "x \<noteq> y"
  with Cons have "ys \<noteq> []" by auto
  with Cons show ?thesis by (cases ys) auto
qed

text \<open>
  Claim C3. In a well-formed node hierarchy, for a skin with the three joints \<open>j0\<close>, \<open>j1\<close>
  and \<open>j2\<close> and no other nodes yet, in which the parent of \<open>j2\<close> is a node \<open>m\<close> that is not
  a joint and whose parent is \<open>j0\<close>, and in which \<open>j1\<close> is \<open>j0\<close> or lies below it:
  \<^verbatim>\<open>_expand_skin\<close> returns \<^verbatim>\<open>OK\<close> as soon as the bound on the recursion exceeds the
  greatest height of a node, the node \<open>m\<close> is in \<^verbatim>\<open>non_joints\<close>, and the roots of the skin
  are exactly \<open>j0\<close>.
\<close>

theorem skip_level_expansion:
  assumes wf: "wf_nodes nodes"
    and joints: "skin_joints p_skin = [j0, j1, j2]"
    and valid: "list_all (valid_node nodes) [j0, j1, j2]"
    and nj: "skin_non_joints p_skin = []"
    and pj2: "par nodes j2 = m" and pm: "par nodes m = j0"
    and mtag: "\<not> is_joint nodes m" and mskin: "m \<notin> set (skin_joints p_skin)"
    and j1: "j0 \<in> set (ancestors nodes j1)"
    and fuel: "tree_depth nodes < fuel"
  shows "\<exists>skin'. expand_skin fuel nodes p_skin = Some (OK, skin')
           \<and> m \<in> set (skin_non_joints skin') \<and> skin_roots skin' = [j0]"
proof -
  let ?J = "set (skin_joints p_skin)"
  have J: "?J = {j0, j1, j2}" by (auto simp: joints)
  have v0: "valid_node nodes j0" and v1: "valid_node nodes j1" and v2: "valid_node nodes j2"
    using valid by simp_all
  have jv: "\<forall>j \<in> ?J. valid_node nodes j" using v0 v1 v2 by (simp add: J)
  have vm: "valid_node nodes m"
    using par_invalid [of nodes m] pm v0 by (auto simp: valid_node_def)
  have hm: "hgt nodes m = hgt nodes j0 + 1" using wf_par_valid [OF wf vm] pm v0 by simp
  have h2: "hgt nodes j2 = hgt nodes j0 + 2" using wf_par_valid [OF wf v2] pj2 vm hm by simp
  have b1: "below nodes j0 j1" by (rule ancestors_below [OF j1])
  have "up nodes (Suc (Suc 0)) j2 = j0" by (simp add: up_Suc pj2 pm)
  then have b2: "below nodes j0 j2" unfolding below_def by blast
  have bel: "\<forall>u \<in> ?J. below nodes j0 u" using b1 b2 below_refl by (simp add: J)
  have above: "par nodes j0 \<notin> V" if "\<forall>u \<in> V. below nodes j0 u" for V
  proof
    assume "par nodes j0 \<in> V"
    with that have b: "below nodes j0 (par nodes j0)" by simp
    from below_hgt [OF wf v0 b] wf_par_valid [OF wf v0] show False by simp
  qed
  have top0: "top_of nodes ?J j0 = j0" using above [OF bel] by (rule top_of_top)
  have "m \<notin> ?J" by (rule mskin)
  then have top2: "top_of nodes ?J j2 = j2" using pj2 by (simp add: top_of_top)
  have ne02: "j0 \<noteq> j2" using h2 by auto
  from union_pass_ok [OF wf jv] obtain ds where un: "union_pass nodes (skin_joints p_skin) = Some ds"
    and inv: "ds_inv (top_of nodes ?J) ?J ds" and els: "set (ds_elements ds) = ?J"
    by blast
  have rep: "ds_parent ds u \<in> set (get_representatives ds)" if "u \<in> ?J" for u
    using inv els that by (simp add: get_representatives_def ds_inv_def)
  have sound: "top_of nodes ?J (ds_parent ds u) = top_of nodes ?J u" if "u \<in> ?J" for u
    using inv els that by (simp add: ds_inv_def)
  have "ds_parent ds j0 \<noteq> ds_parent ds j2"
  proof
    assume "ds_parent ds j0 = ds_parent ds j2"
    with sound [of j0] sound [of j2] top0 top2 ne02 show False by (simp add: J)
  qed
  with rep [of j0] rep [of j2] have two: "2 \<le> length (get_representatives ds)"
    by (intro two_in_list [of "ds_parent ds j0" _ "ds_parent ds j2"]) (simp_all add: J)
  from expand_skin_result [OF wf jv nj un two fuel]
  obtain S1 S2 where m1: "capture_nodes_for_multirooted_skin fuel nodes p_skin = Some S1"
    and val: "\<forall>x \<in> skin_nodes S1. valid_node nodes x"
    and same: "\<forall>t1 \<in> tops nodes (skin_nodes S1). \<forall>t2 \<in> tops nodes (skin_nodes S1).
       par nodes t1 = par nodes t2"
    and cr: "capture_roots fuel nodes S1 (sorted_list_of_set (tops nodes (skin_nodes S1)))
               = Some S2"
    and V2: "skin_nodes S2 = skin_nodes S1"
    and run: "expand_skin fuel nodes p_skin
       = Some (OK, S2\<lparr>skin_roots := sorted_list_of_set (tops nodes (skin_nodes S1))\<rparr>)"
    by blast
  have kb: "kept_below nodes j0 ?J S1"
    by (rule multirooted_below [OF wf jv nj v0 bel m1])
  then have belV: "\<forall>u \<in> skin_nodes S1. below nodes j0 u"
    and tag1: "set (skin_joints S1) \<subseteq> ?J \<union> {v. is_joint nodes v}"
    and JV: "?J \<subseteq> skin_nodes S1"
    by (simp_all add: kept_below_def)
  have t0: "j0 \<in> tops nodes (skin_nodes S1)"
    using JV above [OF belV] by (auto simp: tops_def J)
  have tops1: "tops nodes (skin_nodes S1) = {j0}"
  proof (intro set_eqI iffI)
    fix t assume t: "t \<in> tops nodes (skin_nodes S1)"
    then have tV: "t \<in> skin_nodes S1" by (simp add: tops_def)
    have "par nodes t = par nodes j0" using same t t0 by blast
    with val tV v0 have "hgt nodes t = hgt nodes j0"
      by (intro same_parent_same_height [OF wf]) auto
    with below_hgt [OF wf v0] belV tV show "t \<in> {j0}" by auto
  next
    fix t assume "t \<in> {j0}"
    with t0 show "t \<in> tops nodes (skin_nodes S1)" by simp
  qed
  have roots: "sorted_list_of_set (tops nodes (skin_nodes S1)) = [j0]"
    unfolding tops1 by simp
  have "j2 \<in> skin_nodes S1" using JV by (auto simp: J)
  moreover have "j2 \<notin> tops nodes (skin_nodes S1)" using tops1 ne02 by auto
  ultimately have mV: "m \<in> skin_nodes S1" using pj2 by (auto simp: tops_def)
  have "set (skin_joints S2) \<subseteq> set (skin_joints S1) \<union> {v. is_joint nodes v}"
    by (rule capture_roots_tagged [OF cr])
  with tag1 mtag mskin have "m \<notin> set (skin_joints S2)" by auto
  with mV V2 have "m \<in> set (skin_non_joints S2)" by (auto simp: skin_nodes_def)
  then have "expand_skin fuel nodes p_skin = Some (OK, S2\<lparr>skin_roots := [j0]\<rparr>)
      \<and> m \<in> set (skin_non_joints (S2\<lparr>skin_roots := [j0]\<rparr>))
      \<and> skin_roots (S2\<lparr>skin_roots := [j0]\<rparr>) = [j0]"
    using run roots by simp
  then show ?thesis by (rule exI)
qed

theorem skip_level_expansion_witness:
  "wf_nodes skip_level_nodes \<and> par skip_level_nodes 3 = 2 \<and> par skip_level_nodes 2 = 1
   \<and> 1 \<in> set (ancestors skip_level_nodes 5)
   \<and> (\<exists>skin'. expand_skin 4 skip_level_nodes skip_level_skin = Some (OK, skin')
         \<and> 2 \<in> set (skin_non_joints skin') \<and> skin_roots skin' = [1])"
proof -
  have 1: "wf_nodes skip_level_nodes" by code_simp
  have 2: "skin_joints skip_level_skin = [1, 5, 3]" by (simp add: skip_level_skin_def)
  have 3: "list_all (valid_node skip_level_nodes) [1, 5, 3]" by code_simp
  have 4: "skin_non_joints skip_level_skin = []" by (simp add: skip_level_skin_def)
  have 5: "par skip_level_nodes 3 = 2" "par skip_level_nodes 2 = 1" by code_simp+
  have 6: "\<not> is_joint skip_level_nodes 2" by code_simp
  have 7: "2 \<notin> set (skin_joints skip_level_skin)" by (simp add: skip_level_skin_def)
  have 8: "1 \<in> set (ancestors skip_level_nodes 5)" by code_simp
  have 9: "tree_depth skip_level_nodes < 4" by code_simp
  from skip_level_expansion [OF 1 2 3 4 5 6 7 8 9] 1 5 8 show ?thesis by simp
qed

text \<open>
  With joint 1 on a scene root of its own the scenario of claim C3 still holds word for
  word (three joints, the parent of joint 2 is the non-joint node 3, whose parent is
  joint 0), and the skin gets the two roots 0 and 1.
\<close>

theorem skip_level_two_trees_counterexample:
  "expand_skin 4 two_tree_nodes two_tree_skin =
     Some (OK, \<lparr>skin_joints = [0, 1, 2], skin_non_joints = [3, 0], skin_roots = [0, 1]\<rparr>)"
  by code_simp

end
